theory Spec2Isabelle
  imports Main "HOL-Library.Sublist"
begin

section \<open>Python and Qt values used by \<open>qutebrowser/utils/url.py\<close>\<close>

text \<open>
  A Python \<open>str\<close> is a sequence of Unicode code points, so it is a list of naturals
  here; \<open>lit\<close> injects an ASCII literal of the source.
\<close>

type_synonym pystr = "nat list"

abbreviation lit :: "string \<Rightarrow> pystr" where
  "lit s \<equiv> map of_char s"

text \<open>
  The value \<open>config.config.get('general', 'auto_search')\<close> returns is only tested for
  truth and compared with two strings; these are the Python values it may be.
\<close>

datatype pyval = PyNone | PyBool bool | PyStr pystr

fun truthy :: "pyval \<Rightarrow> bool" where
  "truthy PyNone = False"
| "truthy (PyBool b) = b"
| "truthy (PyStr s) = (s \<noteq> [])"

text \<open>
  Exceptions. \<open>ValueError\<close> carries the message of the \<open>raise\<close>; it also stands for
  its subclasses, which \<open>except ValueError\<close> catches as well. \<open>OtherError\<close> is any
  exception that is not a \<open>ValueError\<close>.
\<close>

datatype exc = ValueError string | OtherError

text \<open>
  A \<open>QUrl\<close> object is used through \<open>toString()\<close> and \<open>host()\<close> only.
\<close>

record qurl_obj =
  toString :: pystr
  host :: pystr

text \<open>The functions take "a QUrl or a string" and test it with \<open>isinstance\<close>.\<close>

datatype url = UStr pystr | UQUrl qurl_obj

text \<open>What \<open>socket.gethostbyname\<close> does: it returns an address, raises
  \<open>socket.gaierror\<close>, or raises something else.\<close>

datatype dns_result = Resolved | Gaierror | Raises exc

text \<open>
  Everything the module takes from outside this repository's sources: the configuration
  object, Qt's \<open>QUrl\<close>, \<open>urllib.parse.quote\<close>, \<open>str.format\<close>, the resolver, and the
  interpreter's Unicode tables beyond ASCII (\<open>str.isspace\<close> and \<open>str.isalnum\<close> for code
  points from 128 on). \<open>searchengines w k\<close> is
  \<open>config.config.get('searchengines', k, fallback=None)\<close>, with \<open>None\<close> for Python's
  \<open>None\<close>.
\<close>

record world =
  auto_search :: pyval
  searchengines :: "pystr \<Rightarrow> pystr option"
  QUrl :: "pystr \<Rightarrow> qurl_obj"
  fromUserInput :: "pystr \<Rightarrow> qurl_obj"
  quote :: "pystr \<Rightarrow> exc + pystr"
  format :: "pystr \<Rightarrow> pystr \<Rightarrow> exc + pystr"
  gethostbyname :: "pystr \<Rightarrow> dns_result"
  uspace :: "nat \<Rightarrow> bool"
  ualnum :: "nat \<Rightarrow> bool"

section \<open>String helpers\<close>

text \<open>\<open>s.replace(old, new)\<close>: every non-overlapping occurrence, from the left.\<close>

function replace :: "pystr \<Rightarrow> pystr \<Rightarrow> pystr \<Rightarrow> pystr" where
  "replace old new s =
     (if old = [] then (case s of [] \<Rightarrow> new | c # s' \<Rightarrow> new @ c # replace old new s')
      else if prefix old s then new @ replace old new (drop (length old) s)
      else (case s of [] \<Rightarrow> [] | c # s' \<Rightarrow> c # replace old new s'))"
  by pat_completeness auto
termination
  by (relation "measure (\<lambda>(old, new, s). length s)") (auto simp: prefix_def)

declare replace.simps [simp del]

section \<open>The functions of \<open>url.py\<close>\<close>

text \<open>\<open>qurl(url)\<close> and \<open>urlstring(url)\<close>.\<close>

fun qurl :: "world \<Rightarrow> url \<Rightarrow> url" where
  "qurl w (UQUrl q) = UQUrl q"
| "qurl w (UStr s) = UQUrl (QUrl w s)"

fun urlstring :: "url \<Rightarrow> pystr" where
  "urlstring (UQUrl q) = toString q"
| "urlstring (UStr s) = s"

text \<open>\<open>_is_url_naive(url)\<close>\<close>

definition PROTOCOLS :: "pystr list" where
  "PROTOCOLS = [lit ''http://'', lit ''https://'']"

definition is_url_naive :: "url \<Rightarrow> bool" where
  "is_url_naive url =
     (let u = urlstring url
      in list_ex (\<lambda>proto. prefix proto u) PROTOCOLS \<or> 46 \<in> set u \<or> u = lit ''localhost'')"

text \<open>
  \<open>_is_url_dns(url)\<close>. The second component is the list of host names handed to
  \<open>socket.gethostbyname\<close>, in order: the name resolutions the call attempts.
\<close>

definition is_url_dns :: "world \<Rightarrow> qurl_obj \<Rightarrow> (exc + bool) \<times> pystr list" where
  "is_url_dns w url =
     (let h = host url
      in if h = [] then (Inr False, [])
         else (case gethostbyname w h of
                 Resolved \<Rightarrow> (Inr True, [h])
               | Gaierror \<Rightarrow> (Inr False, [h])
               | Raises e \<Rightarrow> (Inl e, [h])))"

text \<open>\<open>is_special_url(url)\<close>\<close>

definition special_schemes :: "pystr list" where
  "special_schemes = [lit ''about'', lit ''qute'']"

definition is_special_url :: "url \<Rightarrow> bool" where
  "is_special_url url =
     list_ex (\<lambda>scheme. prefix scheme (replace (lit ''http://'') [] (urlstring url)))
       special_schemes"

text \<open>\<open>is_url(url)\<close>, with the name resolutions it attempts.\<close>

definition is_url :: "world \<Rightarrow> url \<Rightarrow> (exc + bool) \<times> pystr list" where
  "is_url w url =
     (let urlstr = urlstring url; autosearch = auto_search w
      in if \<not> truthy autosearch then (Inr True, [])
         else if 32 \<in> set urlstr then (Inr False, [])
         else if is_special_url url then (Inr True, [])
         else if autosearch = PyStr (lit ''dns'')
           then is_url_dns w (fromUserInput w urlstr)
         else if autosearch = PyStr (lit ''naive'')
           then (Inr (is_url_naive url), [])
         else (Inl (ValueError ''Invalid autosearch value''), []))"

section \<open>The regular expression of \<open>_get_search_url\<close>\<close>

text \<open>
  \<open>_get_search_url\<close> compiles \<open>(^|\s+)!(\w+)($|\s+)\<close> and calls \<open>search\<close> and
  \<open>sub\<close> on it. The pattern is a value of \<open>re\<close>, and \<open>rmatch\<close> is the backtracking
  matcher of Python's \<open>re\<close> module for this fragment: it returns every way the
  expression matches at the start of \<open>s\<close>, as the number of characters consumed and the
  groups captured, in the order in which backtracking tries them. The head of the list is
  the match the module reports. \<open>bol\<close> says that \<open>s\<close> starts at position 0 of the
  subject, which is where \<open>^\<close> matches; \<open>$\<close> matches at the end and before a final
  newline; \<open>+\<close> is greedy.

  \<open>\s\<close> and \<open>\w\<close> on a \<open>str\<close> pattern are \<open>str.isspace\<close> and
  \<open>str.isalnum\<close>-or-underscore; their ASCII part is fixed here.
\<close>

definition py_isspace :: "world \<Rightarrow> nat \<Rightarrow> bool" where
  "py_isspace w c =
     (if c < 128 then (9 \<le> c \<and> c \<le> 13) \<or> (28 \<le> c \<and> c \<le> 32) else uspace w c)"

definition py_isalnum :: "world \<Rightarrow> nat \<Rightarrow> bool" where
  "py_isalnum w c =
     (if c < 128 then (48 \<le> c \<and> c \<le> 57) \<or> (65 \<le> c \<and> c \<le> 90) \<or> (97 \<le> c \<and> c \<le> 122)
      else ualnum w c)"

datatype cls = Space | Word

fun in_cls :: "world \<Rightarrow> cls \<Rightarrow> nat \<Rightarrow> bool" where
  "in_cls w Space c = py_isspace w c"
| "in_cls w Word c = (py_isalnum w c \<or> c = 95)"

datatype re = Bol | Eol | Lit nat | Plus cls | Alt re re | Seq re re | Grp nat re

type_synonym groups = "nat \<Rightarrow> pystr option"

fun rmatch :: "world \<Rightarrow> re \<Rightarrow> bool \<Rightarrow> pystr \<Rightarrow> groups \<Rightarrow> (nat \<times> groups) list" where
  "rmatch w Bol bol s g = (if bol then [(0, g)] else [])"
| "rmatch w Eol bol s g = (if s = [] \<or> s = [10] then [(0, g)] else [])"
| "rmatch w (Lit c) bol s g = (case s of [] \<Rightarrow> [] | d # _ \<Rightarrow> if d = c then [(1, g)] else [])"
| "rmatch w (Plus k) bol s g =
     map (\<lambda>n. (n, g)) (rev [1..<Suc (length (takeWhile (in_cls w k) s))])"
| "rmatch w (Alt a b) bol s g = rmatch w a bol s g @ rmatch w b bol s g"
| "rmatch w (Seq a b) bol s g =
     concat (map (\<lambda>(n, g'). map (\<lambda>(n', g''). (n + n', g''))
                                (rmatch w b (bol \<and> n = 0) (drop n s) g'))
                 (rmatch w a bol s g))"
| "rmatch w (Grp i a) bol s g = map (\<lambda>(n, g'). (n, g'(i \<mapsto> take n s))) (rmatch w a bol s g)"

declare rmatch.simps [simp del]

text \<open>A match object: \<open>m.start()\<close>, \<open>m.end()\<close> and the groups of \<open>m.group(i)\<close>.\<close>

record match_obj =
  m_start :: nat
  m_end :: nat
  m_group :: groups

text \<open>\<open>r.search(txt)\<close>: the first position, from the left, at which the pattern matches.\<close>

fun search_from :: "world \<Rightarrow> re \<Rightarrow> nat \<Rightarrow> pystr \<Rightarrow> match_obj option" where
  "search_from w r pos [] =
     (case rmatch w r (pos = 0) [] Map.empty of
        (n, g) # _ \<Rightarrow> Some \<lparr>m_start = pos, m_end = pos + n, m_group = g\<rparr>
      | [] \<Rightarrow> None)"
| "search_from w r pos (c # s) =
     (case rmatch w r (pos = 0) (c # s) Map.empty of
        (n, g) # _ \<Rightarrow> Some \<lparr>m_start = pos, m_end = pos + n, m_group = g\<rparr>
      | [] \<Rightarrow> search_from w r (Suc pos) s)"

definition re_search :: "world \<Rightarrow> re \<Rightarrow> pystr \<Rightarrow> match_obj option" where
  "re_search w r txt = search_from w r 0 txt"

text \<open>
  \<open>r.sub('', txt)\<close>: the text without the matches, found from the left, each search
  starting where the match before it ended. A match that consumes nothing removes
  nothing.
\<close>

function sub_from :: "world \<Rightarrow> re \<Rightarrow> bool \<Rightarrow> pystr \<Rightarrow> pystr" where
  "sub_from w r bol [] = []"
| "sub_from w r bol (c # s) =
     (case rmatch w r bol (c # s) Map.empty of
        (n, g) # _ \<Rightarrow>
          if 0 < n then sub_from w r False (drop n (c # s)) else c # sub_from w r False s
      | [] \<Rightarrow> c # sub_from w r False s)"
  by pat_completeness auto
termination
  by (relation "measure (\<lambda>(w, r, bol, s). length s)") auto

declare sub_from.simps [simp del]

definition re_sub_empty :: "world \<Rightarrow> re \<Rightarrow> pystr \<Rightarrow> pystr" where
  "re_sub_empty w r txt = sub_from w r True txt"

text \<open>The pattern \<open>(^|\s+)!(\w+)($|\s+)\<close>; 33 is \<open>!\<close>.\<close>

definition engine_re :: re where
  "engine_re =
     Seq (Grp 1 (Alt Bol (Plus Space)))
       (Seq (Lit 33) (Seq (Grp 2 (Plus Word)) (Grp 3 (Alt Eol (Plus Space)))))"

section \<open>Search URLs\<close>

text \<open>
  The \<open>if m: ... else: ...\<close> of \<open>_get_search_url\<close>: the template and the term. Group 2
  takes part in every match of the pattern; were it \<open>None\<close>, the configuration lookup
  would get \<open>None\<close> as its key, which is an error outside \<open>ValueError\<close> here.
\<close>

definition template_and_term :: "world \<Rightarrow> pystr \<Rightarrow> exc + (pystr option \<times> pystr)" where
  "template_and_term w txt =
     (case re_search w engine_re txt of
        Some m \<Rightarrow>
          (case m_group m 2 of
             Some engine \<Rightarrow> Inr (searchengines w engine, re_sub_empty w engine_re txt)
           | None \<Rightarrow> Inl OtherError)
      | None \<Rightarrow> Inr (searchengines w (lit ''DEFAULT''), txt))"

text \<open>\<open>_get_search_url(txt)\<close>\<close>

definition get_search_url :: "world \<Rightarrow> pystr \<Rightarrow> exc + qurl_obj" where
  "get_search_url w txt =
     (case template_and_term w txt of
        Inl e \<Rightarrow> Inl e
      | Inr (template, term) \<Rightarrow>
          (case template of
             None \<Rightarrow> Inl (ValueError ''Search template is None'')
           | Some t \<Rightarrow>
               if term = [] then Inl (ValueError ''No search term given'')
               else (case quote w term of
                       Inl e \<Rightarrow> Inl e
                     | Inr q \<Rightarrow> (case format w t q of
                                  Inl e \<Rightarrow> Inl e
                                | Inr u \<Rightarrow> Inr (fromUserInput w u)))))"

text \<open>
  \<open>fuzzy_url(url)\<close>, with the name resolutions it attempts. \<open>is_url\<close> is outside the
  \<open>try\<close>, so its exception leaves the function; \<open>except ValueError\<close> catches that of
  \<open>_get_search_url\<close> only.
\<close>

definition fuzzy_url :: "world \<Rightarrow> url \<Rightarrow> (exc + qurl_obj) \<times> pystr list" where
  "fuzzy_url w url =
     (let u = qurl w url; urlstr = urlstring url
      in case is_url w u of
           (Inl e, dns) \<Rightarrow> (Inl e, dns)
         | (Inr True, dns) \<Rightarrow> (Inr (fromUserInput w urlstr), dns)
         | (Inr False, dns) \<Rightarrow>
             (case get_search_url w urlstr of
                Inr newurl \<Rightarrow> (Inr newurl, dns)
              | Inl (ValueError msg) \<Rightarrow> (Inr (fromUserInput w urlstr), dns)
              | Inl OtherError \<Rightarrow> (Inl OtherError, dns)))"

text \<open>
  A concrete surrounding for running the functions on inputs: the search engines
  \<open>DEFAULT\<close>, \<open>gg\<close> and \<open>g-g\<close>, a \<open>QUrl\<close> that keeps the text and has no host, a resolver that
  knows no name, a \<open>quote\<close> that leaves the term as it is, a \<open>format\<close> that puts
  it in the place of \<open>{}\<close>, and no space or alphanumeric character beyond ASCII. The autosearch value is the argument.
\<close>

definition sample_engines :: "pystr \<Rightarrow> pystr option" where
  "sample_engines k =
     (if k = lit ''DEFAULT'' then Some (lit ''d?q={}'')
      else if k = lit ''gg'' then Some (lit ''g?q={}'')
      else if k = lit ''g-g'' then Some (lit ''x?q={}'')
      else None)"

definition sample_world :: "pyval \<Rightarrow> world" where
  "sample_world a =
     \<lparr>auto_search = a,
      searchengines = sample_engines,
      QUrl = (\<lambda>s. \<lparr>toString = s, host = []\<rparr>),
      fromUserInput = (\<lambda>s. \<lparr>toString = s, host = []\<rparr>),
      quote = Inr,
      format = (\<lambda>t q. Inr (replace (lit ''{}'') q t)),
      gethostbyname = (\<lambda>h. Gaierror),
      uspace = (\<lambda>c. False),
      ualnum = (\<lambda>c. False)\<rparr>"

section \<open>The pattern and the engine token, read declaratively\<close>

text \<open>
  What a match of the pattern is, apart from how the matcher finds it: the text at the
  position of the match is \<open>ws1 @ ! # wd @ ws2 @ rest\<close>, where \<open>ws1\<close> is group 1 (empty
  only at position 0, otherwise white space), \<open>wd\<close> is group 2 (word characters, at least
  one) and \<open>ws2\<close> is group 3 (white space, or empty at the end of the text or before its
  final newline).
\<close>

definition engine_match :: "world \<Rightarrow> bool \<Rightarrow> pystr \<Rightarrow> pystr \<Rightarrow> pystr \<Rightarrow> pystr \<Rightarrow> bool" where
  "engine_match w bol ws1 wd ws2 rest \<longleftrightarrow>
     (ws1 = [] \<longrightarrow> bol) \<and> (\<forall>c\<in>set ws1. in_cls w Space c) \<and>
     wd \<noteq> [] \<and> (\<forall>c\<in>set wd. in_cls w Word c) \<and>
     (ws2 = [] \<longrightarrow> rest = [] \<or> rest = [10]) \<and> (\<forall>c\<in>set ws2. in_cls w Space c)"

text \<open>
  An engine token of a text \<open>pre @ ! # wd @ post\<close>: the word \<open>wd\<close> of one or more word
  characters, with a white space character before the \<open>!\<close>, or the start of the text where
  \<open>bol\<close> says that the text starts at position 0 of the subject, and with the end of the
  text or a white space character after the word.
\<close>

definition is_token :: "world \<Rightarrow> bool \<Rightarrow> pystr \<Rightarrow> pystr \<Rightarrow> pystr \<Rightarrow> bool" where
  "is_token w bol pre wd post \<longleftrightarrow>
     wd \<noteq> [] \<and> (\<forall>c\<in>set wd. in_cls w Word c) \<and>
     (if pre = [] then bol else in_cls w Space (last pre)) \<and>
     (post = [] \<or> in_cls w Space (hd post))"

definition has_token :: "world \<Rightarrow> bool \<Rightarrow> pystr \<Rightarrow> bool" where
  "has_token w bol txt \<longleftrightarrow>
     (\<exists>pre wd post. txt = pre @ 33 # wd @ post \<and> is_token w bol pre wd post)"

text \<open>The leftmost engine token of the text \<open>pre @ ! # wd @ post\<close>.\<close>

definition first_token :: "world \<Rightarrow> bool \<Rightarrow> pystr \<Rightarrow> pystr \<Rightarrow> pystr \<Rightarrow> bool" where
  "first_token w bol pre wd post \<longleftrightarrow>
     is_token w bol pre wd post \<and>
     (\<forall>pre' wd' post'. pre' @ 33 # wd' @ post' = pre @ 33 # wd @ post \<and>
        is_token w bol pre' wd' post' \<longrightarrow> length pre \<le> length pre')"

text \<open>
  What is left of the text before a token and of the text after it once the white space
  next to the token is gone: \<open>before_token\<close> drops the white space at the end of \<open>pre\<close>,
  \<open>after_token\<close> the white space at the start of \<open>post\<close>, except that a \<open>post\<close> that is
  just the final newline of the text stays.
\<close>

definition before_token :: "world \<Rightarrow> pystr \<Rightarrow> pystr" where
  "before_token w pre = rev (dropWhile (in_cls w Space) (rev pre))"

definition after_token :: "world \<Rightarrow> pystr \<Rightarrow> pystr" where
  "after_token w post = (if post = [10] then post else dropWhile (in_cls w Space) post)"

text \<open>
  No character is both white space and a word character. This holds of the ASCII part
  fixed above and of Unicode; for the code points from 128 on it is a condition on the
  tables \<open>uspace\<close> and \<open>ualnum\<close>.
\<close>

definition classes_disjoint :: "world \<Rightarrow> bool" where
  "classes_disjoint w \<longleftrightarrow> (\<forall>c. \<not> (in_cls w Space c \<and> in_cls w Word c))"

abbreviation naive_world :: world where
  "naive_world \<equiv> sample_world (PyStr (lit ''naive''))"

text \<open>
  A second surrounding, for the DNS check: the autosearch value is \<open>dns\<close>,
  \<open>QUrl.fromUserInput\<close> finds no host in the empty text and in a text that starts with
  \<open>/\<close> (a local path) and takes any other text as the host, and the resolver knows
  \<open>localhost\<close> only.
\<close>

definition dns_world :: world where
  "dns_world =
     (sample_world (PyStr (lit ''dns'')))
       \<lparr>fromUserInput := (\<lambda>s. \<lparr>toString = s, host = (if s = [] \<or> hd s = 47 then [] else s)\<rparr>),
        gethostbyname := (\<lambda>h. if h = lit ''localhost'' then Resolved else Gaierror)\<rparr>"

section \<open>The external editor\<close>

text \<open>
  Modelled from the spec: \<open>qutebrowser/utils/editor.py\<close> is not among the sources, only
  its tests \<open>test/utils/test_editor.py\<close> are. The editor session below follows section 4.2
  of the specification; the calls the tests make (\<open>edit\<close>, \<open>on_proc_closed\<close>,
  \<open>on_proc_error\<close>, \<open>_cleanup\<close>) and the attributes they read (\<open>filename\<close>, \<open>proc\<close>,
  \<open>editing_finished\<close>, \<open>message.error\<close>) keep their names.
\<close>

datatype editor_error =
  ConfigurationError | NotIdle | EncodingError | ProcessExitError nat | ProcessCrashError
  | FileAccessError



text \<open>
  Modelled from the spec, with the placeholder as \<open>ArgTests\<close> asserts it: a token after the
  program that is equal to \<open>{}\<close> is replaced by the path, every other token is passed on
  as it is.
\<close>

definition start_args :: "pystr list \<Rightarrow> pystr \<Rightarrow> editor_error + (pystr \<times> pystr list)" where
  "start_args editor path =
     (case editor of
        [] \<Rightarrow> Inl ConfigurationError
      | executable # args \<Rightarrow>
          Inr (executable, map (\<lambda>arg. if arg = lit ''{}'' then path else arg) args))"

text \<open>
  Modelled from the spec: UTF-8. A text is encoded code point by code point; a code point
  that is no Unicode scalar value (a surrogate, or beyond \<open>0x10FFFF\<close>) has no encoding. The
  decoder accepts exactly the shortest encodings of scalar values.
\<close>

definition valid_scalar :: "nat \<Rightarrow> bool" where
  "valid_scalar c \<longleftrightarrow> c < 0xD800 \<or> (0xE000 \<le> c \<and> c < 0x110000)"

definition utf8_char :: "nat \<Rightarrow> nat list" where
  "utf8_char c =
     (if c < 0x80 then [c]
      else if c < 0x800 then [0xC0 + c div 64, 0x80 + c mod 64]
      else if c < 0x10000 then [0xE0 + c div 4096, 0x80 + c div 64 mod 64, 0x80 + c mod 64]
      else [0xF0 + c div 262144, 0x80 + c div 4096 mod 64, 0x80 + c div 64 mod 64,
            0x80 + c mod 64])"

definition utf8_encode :: "pystr \<Rightarrow> nat list option" where
  "utf8_encode t = (if list_all valid_scalar t then Some (concat (map utf8_char t)) else None)"

definition cont :: "nat \<Rightarrow> bool" where
  "cont b \<longleftrightarrow> 0x80 \<le> b \<and> b < 0xC0"

fun utf8_decode :: "nat list \<Rightarrow> pystr option" where
  "utf8_decode [] = Some []"
| "utf8_decode (b # bs) =
     (if b < 0x80 then map_option ((#) b) (utf8_decode bs)
      else if 0xC2 \<le> b \<and> b < 0xE0 then
        (case bs of
           b1 # r \<Rightarrow>
             if cont b1
             then map_option ((#) ((b - 0xC0) * 64 + (b1 - 0x80))) (utf8_decode r)
             else None
         | _ \<Rightarrow> None)
      else if 0xE0 \<le> b \<and> b < 0xF0 then
        (case bs of
           b1 # b2 # r \<Rightarrow>
             (let c = (b - 0xE0) * 4096 + (b1 - 0x80) * 64 + (b2 - 0x80)
              in if cont b1 \<and> cont b2 \<and> 0x800 \<le> c \<and> valid_scalar c
                 then map_option ((#) c) (utf8_decode r) else None)
         | _ \<Rightarrow> None)
      else if 0xF0 \<le> b \<and> b < 0xF8 then
        (case bs of
           b1 # b2 # b3 # r \<Rightarrow>
             (let c = (b - 0xF0) * 262144 + (b1 - 0x80) * 4096 + (b2 - 0x80) * 64 + (b3 - 0x80)
              in if cont b1 \<and> cont b2 \<and> cont b3 \<and> 0x10000 \<le> c \<and> valid_scalar c
                 then map_option ((#) c) (utf8_decode r) else None)
         | _ \<Rightarrow> None)
      else None)"

text \<open>
  Modelled from the spec: the editor session with what it acts on. \<open>files\<close> is the file
  system (the bytes of each path that exists), \<open>filename\<close> the temporary file of the
  session (\<open>None\<close> when no edit is under way), \<open>proc\<close> the program and arguments given to
  \<open>proc.start\<close>, \<open>emitted\<close> the texts handed to \<open>editing_finished.emit\<close>, \<open>errors\<close>
  the errors shown with \<open>message.error\<close>, and \<open>removed\<close> the paths deleted, each list
  with the latest entry first.
\<close>

record editor =
  files :: "pystr \<Rightarrow> nat list option"
  filename :: "pystr option"
  proc :: "(pystr \<times> pystr list) option"
  emitted :: "pystr list"
  errors :: "editor_error list"
  removed :: "pystr list"

text \<open>\<open>ExternalEditor()\<close> on an empty file system.\<close>

definition new_editor :: editor where
  "new_editor =
     \<lparr>files = Map.empty, filename = None, proc = None, emitted = [], errors = [], removed = []\<rparr>"

text \<open>
  Modelled from the spec: \<open>edit(text)\<close> with the configured command \<open>cmd\<close> and the path
  \<open>tmp\<close> of the newly created temporary file. The state machine has the transition out
  of \<open>Idle\<close> only; an empty command is a configuration error; the text is written in UTF-8
  and the command is started.
\<close>

definition edit :: "pystr list \<Rightarrow> pystr \<Rightarrow> pystr \<Rightarrow> editor \<Rightarrow> editor_error + editor" where
  "edit cmd tmp text st =
     (if filename st \<noteq> None then Inl NotIdle
      else (case start_args cmd tmp of
              Inl e \<Rightarrow> Inl e
            | Inr call \<Rightarrow>
                (case utf8_encode text of
                   None \<Rightarrow> Inl EncodingError
                 | Some bytes \<Rightarrow>
                     Inr (st\<lparr>files := (files st)(tmp \<mapsto> bytes), filename := Some tmp,
                              proc := Some call\<rparr>))))"

text \<open>
  Modelled from the spec: the cleanup of every terminal transition. It deletes the
  temporary file and ends the session; with no session under way it does nothing, so that
  it may run more than once.
\<close>

definition cleanup :: "editor \<Rightarrow> editor" where
  "cleanup st =
     (case filename st of
        None \<Rightarrow> st
      | Some p \<Rightarrow> st\<lparr>files := (files st)(p := None), filename := None, proc := None,
                      removed := p # removed st\<rparr>)"

datatype exit_status = NormalExit | CrashExit

text \<open>
  Modelled from the spec: \<open>on_proc_closed(exitcode, exitstatus)\<close>. A crash and a non-zero
  exit status show an error and emit nothing; status 0 reads the file as UTF-8 and emits
  its text, and a file that cannot be read is an error; the cleanup runs in every case.
  After the terminal transition of the session the callback finds nothing to do.
\<close>

definition on_proc_closed :: "nat \<Rightarrow> exit_status \<Rightarrow> editor \<Rightarrow> editor" where
  "on_proc_closed exitcode exitstatus st =
     (case filename st of
        None \<Rightarrow> st
      | Some p \<Rightarrow>
          if exitstatus = CrashExit then cleanup (st\<lparr>errors := ProcessCrashError # errors st\<rparr>)
          else if exitcode \<noteq> 0
            then cleanup (st\<lparr>errors := ProcessExitError exitcode # errors st\<rparr>)
          else (case files st p of
                  None \<Rightarrow> cleanup (st\<lparr>errors := FileAccessError # errors st\<rparr>)
                | Some bytes \<Rightarrow>
                    (case utf8_decode bytes of
                       None \<Rightarrow> cleanup (st\<lparr>errors := FileAccessError # errors st\<rparr>)
                     | Some text \<Rightarrow> cleanup (st\<lparr>emitted := text # emitted st\<rparr>))))"

text \<open>Modelled from the spec: \<open>on_proc_error(error)\<close>, the crash of the process.\<close>

definition on_proc_error :: "editor \<Rightarrow> editor" where
  "on_proc_error st =
     (case filename st of
        None \<Rightarrow> st
      | Some p \<Rightarrow> cleanup (st\<lparr>errors := ProcessCrashError # errors st\<rparr>))"

text \<open>
  What happens to a session after \<open>edit\<close>: the external program, like \<open>_write\<close> of the
  tests, stores bytes in the temporary file while the session lasts, and the two callbacks
  arrive, in any order and number.
\<close>

datatype event = Write "nat list" | Closed nat exit_status | Crashed

fun step :: "event \<Rightarrow> editor \<Rightarrow> editor" where
  "step (Write bytes) st =
     (case filename st of None \<Rightarrow> st | Some p \<Rightarrow> st\<lparr>files := (files st)(p \<mapsto> bytes)\<rparr>)"
| "step (Closed exitcode exitstatus) st = on_proc_closed exitcode exitstatus st"
| "step Crashed st = on_proc_error st"

definition run :: "event list \<Rightarrow> editor \<Rightarrow> editor" where
  "run es st = foldl (\<lambda>s e. step e s) st es"


text \<open>The callbacks of a failed edit: a crash, or an exit with a status other than 0.\<close>

fun failure :: "event \<Rightarrow> bool" where
  "failure (Write bytes) = False"
| "failure (Closed exitcode exitstatus) = (exitstatus = CrashExit \<or> exitcode \<noteq> 0)"
| "failure Crashed = True"

section \<open>Classification: spaces and the naive check\<close>

lemma example_com_not_special: "\<not> is_special_url (UStr (lit ''example.com''))"
  by code_simp

lemma foo_not_special: "\<not> is_special_url (UStr (lit ''foo''))"
  by code_simp

text \<open>
  What \<open>is_url\<close> does with a space and in naive mode. With autosearch enabled (a true
  value), an input that contains a space is classified as a search term. In naive mode, an
  input without a space for which \<open>is_special_url\<close> returns \<open>False\<close> is a URL exactly
  when it starts with \<open>http://\<close> or \<open>https://\<close>, contains a \<open>.\<close>, or is
  \<open>localhost\<close>. Neither case resolves a name.
\<close>

lemma is_url_space_and_naive:
  "truthy (auto_search w) \<Longrightarrow>
     (32 \<in> set (urlstring url) \<longrightarrow> is_url w url = (Inr False, [])) \<and>
     (auto_search w = PyStr (lit ''naive'') \<longrightarrow> 32 \<notin> set (urlstring url) \<longrightarrow>
        \<not> is_special_url url \<longrightarrow>
        is_url w url =
          (Inr (prefix (lit ''http://'') (urlstring url) \<or>
                prefix (lit ''https://'') (urlstring url) \<or>
                46 \<in> set (urlstring url) \<or>
                urlstring url = lit ''localhost''), []))"
  by (simp add: is_url_def is_url_naive_def PROTOCOLS_def Let_def)

lemma is_url_space_and_naive_examples:
  "is_url naive_world (UStr (lit ''foo bar'')) = (Inr False, []) \<and>
   is_url naive_world (UStr (lit ''example.com'')) = (Inr True, []) \<and>
   is_url naive_world (UStr (lit ''foo'')) = (Inr False, [])"
  using is_url_space_and_naive [of naive_world "UStr (lit ''foo bar'')"]
    is_url_space_and_naive [of naive_world "UStr (lit ''example.com'')"]
    is_url_space_and_naive [of naive_world "UStr (lit ''foo'')"]
    example_com_not_special foo_not_special
  by (simp add: sample_world_def)

text \<open>
  C7. With autosearch enabled, an input with a space is a search term; and in naive mode an
  input without a space that is not a special URL is a URL exactly when it starts with
  \<open>http://\<close> or \<open>https://\<close>, contains a \<open>.\<close>, or is \<open>localhost\<close>. The code departs
  from this at the inputs \<open>qutebrowser\<close> and \<open>aboutus\<close>: they have no space, do not start
  with \<open>about:\<close> or \<open>qute:\<close> (with or without a leading \<open>http://\<close>), and meet none of
  the three conditions, yet naive mode classifies them as URLs. The reason is
  \<open>is_special_url\<close>, documented as "Return True if url is an about:... or other special
  URL": it tests \<open>startswith\<close> on the scheme names \<open>about\<close> and \<open>qute\<close> without the
  colon, so it accepts every text that begins with these letters.
\<close>

theorem is_url_naive_scheme_name_prefix:
  "32 \<notin> set (lit ''qutebrowser'') \<and>
   \<not> prefix (lit ''about:'') (lit ''qutebrowser'') \<and>
   \<not> prefix (lit ''qute:'') (lit ''qutebrowser'') \<and>
   \<not> prefix (lit ''http://'') (lit ''qutebrowser'') \<and>
   \<not> prefix (lit ''https://'') (lit ''qutebrowser'') \<and>
   46 \<notin> set (lit ''qutebrowser'') \<and>
   lit ''qutebrowser'' \<noteq> lit ''localhost'' \<and>
   is_special_url (UStr (lit ''qutebrowser'')) \<and>
   is_url naive_world (UStr (lit ''qutebrowser'')) = (Inr True, []) \<and>
   32 \<notin> set (lit ''aboutus'') \<and>
   \<not> prefix (lit ''about:'') (lit ''aboutus'') \<and>
   \<not> prefix (lit ''qute:'') (lit ''aboutus'') \<and>
   \<not> prefix (lit ''http://'') (lit ''aboutus'') \<and>
   \<not> prefix (lit ''https://'') (lit ''aboutus'') \<and>
   46 \<notin> set (lit ''aboutus'') \<and>
   lit ''aboutus'' \<noteq> lit ''localhost'' \<and>
   is_special_url (UStr (lit ''aboutus'')) \<and>
   is_url naive_world (UStr (lit ''aboutus'')) = (Inr True, [])"
  by code_simp

section \<open>Classification: special URLs\<close>

lemma replace_skip:
  "old \<noteq> [] \<Longrightarrow> \<not> prefix old (c # s) \<Longrightarrow> replace old new (c # s) = c # replace old new s"
  by (subst replace.simps) simp

lemma replace_hit:
  "old \<noteq> [] \<Longrightarrow> replace old new (old @ s) = new @ replace old new s"
  by (subst replace.simps) simp

lemma about_is_special:
  "prefix (lit ''about'') s \<Longrightarrow> prefix (lit ''about'') (replace (lit ''http://'') [] s)"
  by (auto simp: prefix_def replace_skip)

lemma qute_is_special:
  "prefix (lit ''qute'') s \<Longrightarrow> prefix (lit ''qute'') (replace (lit ''http://'') [] s)"
  by (auto simp: prefix_def replace_skip)

lemma http_stripped:
  "prefix (lit ''http://'') s \<Longrightarrow>
     replace (lit ''http://'') [] s = replace (lit ''http://'') [] (drop 7 s)"
proof -
  assume "prefix (lit ''http://'') s"
  then obtain r where s: "s = lit ''http://'' @ r"
    by (auto simp: prefix_def)
  have "replace (lit ''http://'') [] (lit ''http://'' @ r) = [] @ replace (lit ''http://'') [] r"
    by (rule replace_hit) simp
  with s show ?thesis by simp
qed

lemma special_prefix_is_special:
  assumes "prefix (lit ''about:'') s \<or> prefix (lit ''qute:'') s \<or>
           prefix (lit ''http://about:'') s \<or> prefix (lit ''http://qute:'') s"
  shows "is_special_url (UStr s)" and "toString q = s \<Longrightarrow> is_special_url (UQUrl q)"
proof -
  have "prefix (lit ''about'') (replace (lit ''http://'') [] s) \<or>
        prefix (lit ''qute'') (replace (lit ''http://'') [] s)"
    using assms
  proof (elim disjE)
    assume "prefix (lit ''about:'') s"
    then have "prefix (lit ''about'') s" by (auto simp: prefix_def)
    then show ?thesis by (blast intro: about_is_special)
  next
    assume "prefix (lit ''qute:'') s"
    then have "prefix (lit ''qute'') s" by (auto simp: prefix_def)
    then show ?thesis by (blast intro: qute_is_special)
  next
    assume a: "prefix (lit ''http://about:'') s"
    then have h: "prefix (lit ''http://'') s" and "prefix (lit ''about'') (drop 7 s)"
      by (auto simp: prefix_def)
    then have "prefix (lit ''about'') (replace (lit ''http://'') [] (drop 7 s))"
      by (blast intro: about_is_special)
    with http_stripped [OF h] show ?thesis by simp
  next
    assume a: "prefix (lit ''http://qute:'') s"
    then have h: "prefix (lit ''http://'') s" and "prefix (lit ''qute'') (drop 7 s)"
      by (auto simp: prefix_def)
    then have "prefix (lit ''qute'') (replace (lit ''http://'') [] (drop 7 s))"
      by (blast intro: qute_is_special)
    with http_stripped [OF h] show ?thesis by simp
  qed
  then show "is_special_url (UStr s)" and "toString q = s \<Longrightarrow> is_special_url (UQUrl q)"
    by (auto simp: is_special_url_def special_schemes_def)
qed

lemma urlstring_special:
  "prefix (lit ''about:'') (urlstring url) \<or> prefix (lit ''qute:'') (urlstring url) \<or>
   prefix (lit ''http://about:'') (urlstring url) \<or> prefix (lit ''http://qute:'') (urlstring url)
   \<Longrightarrow> is_special_url url"
  by (cases url) (simp_all add: special_prefix_is_special)

text \<open>
  C6, as the code has it. An input that starts with \<open>about:\<close> or \<open>qute:\<close>, directly or
  after a leading \<open>http://\<close>, and contains no space character is classified as a URL
  whenever autosearch is enabled, whatever the autosearch value is (also one that is
  neither \<open>dns\<close> nor \<open>naive\<close>), and no name is resolved. The test for a space comes
  first in \<open>is_url\<close>, so the rest of the input does matter: see the counterexample.
\<close>

theorem is_url_special_prefix:
  "truthy (auto_search w) \<Longrightarrow> 32 \<notin> set (urlstring url) \<Longrightarrow>
   prefix (lit ''about:'') (urlstring url) \<or> prefix (lit ''qute:'') (urlstring url) \<or>
   prefix (lit ''http://about:'') (urlstring url) \<or> prefix (lit ''http://qute:'') (urlstring url)
   \<Longrightarrow> is_url w url = (Inr True, [])"
  by (simp add: is_url_def Let_def urlstring_special)

theorem is_url_special_prefix_witness:
  "is_url (sample_world (PyStr (lit ''dns''))) (UStr (lit ''http://qute:version'')) = (Inr True, [])"
  using is_url_special_prefix [of "sample_world (PyStr (lit ''dns''))" "UStr (lit ''http://qute:version'')"]
  by (simp add: sample_world_def)

text \<open>
  The claim as stated fails: \<open>about:blank now\<close> starts with \<open>about:\<close>, autosearch is
  enabled, and the input is classified as a search term because it contains a space.
\<close>

theorem is_url_special_prefix_counterexample:
  "prefix (lit ''about:'') (urlstring (UStr (lit ''about:blank now''))) \<and>
   truthy (auto_search (sample_world (PyStr (lit ''naive'')))) \<and>
   is_url (sample_world (PyStr (lit ''naive''))) (UStr (lit ''about:blank now'')) = (Inr False, [])"
  by (simp add: is_url_def sample_world_def Let_def)

section \<open>Classification: invalid autosearch values\<close>

text \<open>
  What \<open>is_url\<close> does with an autosearch value that is true but neither \<open>dns\<close> nor
  \<open>naive\<close>: the \<open>raise ValueError\<close> is the last branch of the \<open>if\<close> chain, behind the
  test for a space and the test for a special URL.
\<close>

lemma is_url_invalid_autosearch:
  "truthy (auto_search w) \<Longrightarrow> auto_search w \<noteq> PyStr (lit ''dns'') \<Longrightarrow>
   auto_search w \<noteq> PyStr (lit ''naive'') \<Longrightarrow>
     is_url w url =
       (if 32 \<in> set (urlstring url) then (Inr False, [])
        else if is_special_url url then (Inr True, [])
        else (Inl (ValueError ''Invalid autosearch value''), []))"
  by (simp add: is_url_def Let_def)

lemma about_blank_special: "is_special_url (UStr (lit ''about:blank''))"
  by code_simp

lemma is_url_invalid_autosearch_examples:
  "is_url (sample_world (PyStr (lit ''bogus''))) (UStr (lit ''foo'')) =
     (Inl (ValueError ''Invalid autosearch value''), []) \<and>
   is_url (sample_world (PyBool True)) (UStr (lit ''foo'')) =
     (Inl (ValueError ''Invalid autosearch value''), []) \<and>
   is_url (sample_world (PyStr (lit ''bogus''))) (UStr (lit ''about:blank'')) = (Inr True, [])"
  using is_url_invalid_autosearch [of "sample_world (PyStr (lit ''bogus''))" "UStr (lit ''foo'')"]
    is_url_invalid_autosearch [of "sample_world (PyBool True)" "UStr (lit ''foo'')"]
    is_url_invalid_autosearch [of "sample_world (PyStr (lit ''bogus''))" "UStr (lit ''about:blank'')"]
    foo_not_special about_blank_special
  by (simp add: sample_world_def)

text \<open>
  C9. For every autosearch value other than disabled, \<open>dns\<close> and \<open>naive\<close>, classification
  raises a configuration error, for every input; the docstring of \<open>is_url\<close> says the same:
  "Raise: ValueError if the autosearch config value is invalid". The code departs from this:
  with the value \<open>bogus\<close>, which is true and is neither \<open>dns\<close> nor \<open>naive\<close>, the input
  \<open>foo bar\<close> is classified as a search term and the input \<open>qutebrowser\<close> as a URL, and
  nothing is raised, because \<open>is_url\<close> returns on a space and on \<open>is_special_url\<close> before
  it looks at the value.
\<close>

theorem is_url_invalid_autosearch_silent:
  "truthy (PyStr (lit ''bogus'')) \<and> PyStr (lit ''bogus'') \<noteq> PyStr (lit ''dns'') \<and>
   PyStr (lit ''bogus'') \<noteq> PyStr (lit ''naive'') \<and>
   is_url (sample_world (PyStr (lit ''bogus''))) (UStr (lit ''foo bar'')) = (Inr False, []) \<and>
   is_url (sample_world (PyStr (lit ''bogus''))) (UStr (lit ''qutebrowser'')) = (Inr True, [])"
  by code_simp

section \<open>Classification: the DNS check\<close>

lemma tmp_x_not_special: "\<not> is_special_url (UStr (lit ''/tmp/x''))"
  by code_simp

text \<open>
  C10. In dns mode, when the host that \<open>QUrl.fromUserInput\<close> finds in the input is empty,
  the classifier returns \<open>False\<close> (a search term) at once and resolves no name. This is
  \<open>_is_url_dns\<close>, which returns before \<open>socket.gethostbyname\<close> when the host is empty,
  and the dns branch of \<open>is_url\<close>, which is reached when the autosearch value is \<open>dns\<close>,
  the input has no space and \<open>is_special_url\<close> returns \<open>False\<close>. The second component
  \<open>[]\<close> says that no name was handed to the resolver.
\<close>

theorem is_url_dns_empty_host:
  "(host q = [] \<longrightarrow> is_url_dns w q = (Inr False, [])) \<and>
   (auto_search w = PyStr (lit ''dns'') \<and> 32 \<notin> set (urlstring url) \<and>
    \<not> is_special_url url \<and> host (fromUserInput w (urlstring url)) = [] \<longrightarrow>
      is_url w url = (Inr False, []))"
  by (simp add: is_url_def is_url_dns_def Let_def)

theorem is_url_dns_empty_host_witness:
  "is_url_dns dns_world \<lparr>toString = lit ''file:///tmp/x'', host = []\<rparr> = (Inr False, []) \<and>
   is_url dns_world (UStr (lit ''/tmp/x'')) = (Inr False, [])"
  using is_url_dns_empty_host [of "\<lparr>toString = lit ''file:///tmp/x'', host = []\<rparr>" dns_world
      "UStr (lit ''/tmp/x'')"]
    tmp_x_not_special
  by (simp add: dns_world_def sample_world_def)

text \<open>
  With a host, the resolver is asked: in the same surrounding \<open>foo\<close> and \<open>localhost\<close> are
  looked up, and the answer decides.
\<close>

lemma is_url_dns_lookup_examples:
  "is_url dns_world (UStr (lit ''foo'')) = (Inr False, [lit ''foo'']) \<and>
   is_url dns_world (UStr (lit ''localhost'')) = (Inr True, [lit ''localhost''])"
  by code_simp

section \<open>The matcher on the pattern of \<open>_get_search_url\<close>\<close>


lemma set_rmatch_Plus:
  "set (rmatch w (Plus k) bol s g) =
     {(n, g) | n. 1 \<le> n \<and> n \<le> length (takeWhile (in_cls w k) s)}"
  by (auto simp: image_iff rmatch.simps)

lemma le_takeWhile_iff:
  "n \<le> length (takeWhile P s) \<longleftrightarrow> n \<le> length s \<and> (\<forall>c \<in> set (take n s). P c)"
proof (induction s arbitrary: n)
  case Nil
  then show ?case by simp
next
  case (Cons a s)
  then show ?case by (cases n) auto
qed

lemma in_concat_map: "z \<in> set (concat (map f xs)) \<longleftrightarrow> (\<exists>x\<in>set xs. z \<in> set (f x))"
  by auto

lemma in_map_shift:
  "(m, h) \<in> set (map (\<lambda>(n', g''). (n + n', g'')) ys) \<longleftrightarrow> (\<exists>n'. m = n + n' \<and> (n', h) \<in> set ys)"
  by (force simp: image_iff)

lemma in_map_grp:
  "(m, h) \<in> set (map (\<lambda>(n, g'). (n, g'(i \<mapsto> take n s))) ys) \<longleftrightarrow>
     (\<exists>g'. h = g'(i \<mapsto> take m s) \<and> (m, g') \<in> set ys)"
  by (force simp: image_iff)

lemma rmatch_Seq_iff:
  "(m, h) \<in> set (rmatch w (Seq a b) bol s g) \<longleftrightarrow>
     (\<exists>n g' n'. m = n + n' \<and> (n, g') \<in> set (rmatch w a bol s g) \<and>
        (n', h) \<in> set (rmatch w b (bol \<and> n = 0) (drop n s) g'))"
proof -
  have "(m, h) \<in> set (rmatch w (Seq a b) bol s g) \<longleftrightarrow>
        (\<exists>x\<in>set (rmatch w a bol s g). (m, h) \<in> set (case x of (n, g') \<Rightarrow>
            map (\<lambda>(n', g''). (n + n', g'')) (rmatch w b (bol \<and> n = 0) (drop n s) g')))"
    by (simp only: rmatch.simps in_concat_map)
  also have "\<dots> \<longleftrightarrow> (\<exists>n g'. (n, g') \<in> set (rmatch w a bol s g) \<and>
        (m, h) \<in> set (map (\<lambda>(n', g''). (n + n', g'')) (rmatch w b (bol \<and> n = 0) (drop n s) g')))"
    by (simp only: Bex_def split_paired_Ex prod.case)
  also have "\<dots> \<longleftrightarrow> (\<exists>n g' n'. m = n + n' \<and> (n, g') \<in> set (rmatch w a bol s g) \<and>
        (n', h) \<in> set (rmatch w b (bol \<and> n = 0) (drop n s) g'))"
    by (simp only: in_map_shift) blast
  finally show ?thesis .
qed

lemma rmatch_Grp_iff:
  "(m, h) \<in> set (rmatch w (Grp i a) bol s g) \<longleftrightarrow>
     (\<exists>g'. h = g'(i \<mapsto> take m s) \<and> (m, g') \<in> set (rmatch w a bol s g))"
  by (simp only: rmatch.simps in_map_grp)

lemma rmatch_Lit_iff:
  "(n, g) \<in> set (rmatch w (Lit c) bol s g0) \<longleftrightarrow> n = 1 \<and> g = g0 \<and> (\<exists>s'. s = c # s')"
  by (cases s) (auto simp: rmatch.simps)

lemma rmatch_Plus_iff:
  "(n, g) \<in> set (rmatch w (Plus k) bol s g0) \<longleftrightarrow>
     g = g0 \<and> (\<exists>xs ys. s = xs @ ys \<and> xs \<noteq> [] \<and> length xs = n \<and> (\<forall>c\<in>set xs. in_cls w k c))"
proof -
  have "(n, g) \<in> set (rmatch w (Plus k) bol s g0) \<longleftrightarrow>
          g = g0 \<and> 1 \<le> n \<and> n \<le> length (takeWhile (in_cls w k) s)"
    by (auto simp: image_iff rmatch.simps)
  also have "\<dots> \<longleftrightarrow> g = g0 \<and> 1 \<le> n \<and> n \<le> length s \<and> (\<forall>c\<in>set (take n s). in_cls w k c)"
    by (simp only: le_takeWhile_iff)
  also have "\<dots> \<longleftrightarrow> g = g0 \<and>
      (\<exists>xs ys. s = xs @ ys \<and> xs \<noteq> [] \<and> length xs = n \<and> (\<forall>c\<in>set xs. in_cls w k c))"
  proof
    assume a: "g = g0 \<and> 1 \<le> n \<and> n \<le> length s \<and> (\<forall>c\<in>set (take n s). in_cls w k c)"
    have "s = take n s @ drop n s" by simp
    moreover have "take n s \<noteq> []" using a by auto
    moreover have "length (take n s) = n" using a by simp
    ultimately show "g = g0 \<and>
      (\<exists>xs ys. s = xs @ ys \<and> xs \<noteq> [] \<and> length xs = n \<and> (\<forall>c\<in>set xs. in_cls w k c))"
      using a by blast
  next
    assume "g = g0 \<and>
      (\<exists>xs ys. s = xs @ ys \<and> xs \<noteq> [] \<and> length xs = n \<and> (\<forall>c\<in>set xs. in_cls w k c))"
    then obtain xs ys where "g = g0" "s = xs @ ys" "xs \<noteq> []" "length xs = n"
      "\<forall>c\<in>set xs. in_cls w k c"
      by blast
    then show "g = g0 \<and> 1 \<le> n \<and> n \<le> length s \<and> (\<forall>c\<in>set (take n s). in_cls w k c)"
      by (cases xs) auto
  qed
  finally show ?thesis .
qed


lemma rmatch_grp1_iff:
  "(n, g) \<in> set (rmatch w (Grp 1 (Alt Bol (Plus Space))) bol s g0) \<longleftrightarrow>
     (\<exists>ws1 r. s = ws1 @ r \<and> n = length ws1 \<and> (ws1 = [] \<longrightarrow> bol) \<and>
        (\<forall>c\<in>set ws1. in_cls w Space c) \<and> g = g0(1 \<mapsto> ws1))"
proof
  assume "(n, g) \<in> set (rmatch w (Grp 1 (Alt Bol (Plus Space))) bol s g0)"
  then obtain g' where g: "g = g'(1 \<mapsto> take n s)"
    and alt: "(n, g') \<in> set (rmatch w Bol bol s g0) \<or> (n, g') \<in> set (rmatch w (Plus Space) bol s g0)"
    by (auto simp only: rmatch_Grp_iff rmatch.simps(5) set_append Un_iff)
  from alt show "\<exists>ws1 r. s = ws1 @ r \<and> n = length ws1 \<and> (ws1 = [] \<longrightarrow> bol) \<and>
        (\<forall>c\<in>set ws1. in_cls w Space c) \<and> g = g0(1 \<mapsto> ws1)"
  proof
    assume "(n, g') \<in> set (rmatch w Bol bol s g0)"
    then have "bol" "n = 0" "g' = g0" by (auto simp: rmatch.simps split: if_splits)
    with g have "s = [] @ s \<and> n = length ([]::nat list) \<and> (([]::nat list) = [] \<longrightarrow> bol) \<and>
        (\<forall>c\<in>set []. in_cls w Space c) \<and> g = g0(1 \<mapsto> [])"
      by simp
    then show ?thesis by blast
  next
    assume "(n, g') \<in> set (rmatch w (Plus Space) bol s g0)"
    then obtain xs ys where "g' = g0" "s = xs @ ys" "xs \<noteq> []" "length xs = n"
      "\<forall>c\<in>set xs. in_cls w Space c"
      unfolding rmatch_Plus_iff by blast
    with g have "s = xs @ ys \<and> n = length xs \<and> (xs = [] \<longrightarrow> bol) \<and>
        (\<forall>c\<in>set xs. in_cls w Space c) \<and> g = g0(1 \<mapsto> xs)"
      by simp
    then show ?thesis by blast
  qed
next
  assume "\<exists>ws1 r. s = ws1 @ r \<and> n = length ws1 \<and> (ws1 = [] \<longrightarrow> bol) \<and>
        (\<forall>c\<in>set ws1. in_cls w Space c) \<and> g = g0(1 \<mapsto> ws1)"
  then obtain ws1 r where s: "s = ws1 @ r" and n: "n = length ws1" and b: "ws1 = [] \<longrightarrow> bol"
    and sp: "\<forall>c\<in>set ws1. in_cls w Space c" and g: "g = g0(1 \<mapsto> ws1)"
    by blast
  have t: "take n s = ws1" using s n by simp
  have "(n, g0) \<in> set (rmatch w Bol bol s g0) \<or> (n, g0) \<in> set (rmatch w (Plus Space) bol s g0)"
  proof (cases "ws1 = []")
    case True
    with b n show ?thesis by (simp add: rmatch.simps)
  next
    case False
    with s n sp have "(n, g0) \<in> set (rmatch w (Plus Space) bol s g0)"
      unfolding rmatch_Plus_iff by blast
    then show ?thesis ..
  qed
  then have "(n, g0) \<in> set (rmatch w (Alt Bol (Plus Space)) bol s g0)"
    by (simp only: rmatch.simps(5) set_append Un_iff)
  with g t show "(n, g) \<in> set (rmatch w (Grp 1 (Alt Bol (Plus Space))) bol s g0)"
    unfolding rmatch_Grp_iff by blast
qed

lemma rmatch_grp2_iff:
  "(n, g) \<in> set (rmatch w (Grp 2 (Plus Word)) bol s g0) \<longleftrightarrow>
     (\<exists>wd r. s = wd @ r \<and> wd \<noteq> [] \<and> n = length wd \<and>
        (\<forall>c\<in>set wd. in_cls w Word c) \<and> g = g0(2 \<mapsto> wd))"
proof
  assume "(n, g) \<in> set (rmatch w (Grp 2 (Plus Word)) bol s g0)"
  then obtain g' where g: "g = g'(2 \<mapsto> take n s)"
    and p: "(n, g') \<in> set (rmatch w (Plus Word) bol s g0)"
    unfolding rmatch_Grp_iff by blast
  from p obtain xs ys where "g' = g0" "s = xs @ ys" "xs \<noteq> []" "length xs = n"
      "\<forall>c\<in>set xs. in_cls w Word c"
    unfolding rmatch_Plus_iff by blast
  with g have "s = xs @ ys \<and> xs \<noteq> [] \<and> n = length xs \<and>
        (\<forall>c\<in>set xs. in_cls w Word c) \<and> g = g0(2 \<mapsto> xs)"
    by simp
  then show "\<exists>wd r. s = wd @ r \<and> wd \<noteq> [] \<and> n = length wd \<and>
        (\<forall>c\<in>set wd. in_cls w Word c) \<and> g = g0(2 \<mapsto> wd)"
    by blast
next
  assume "\<exists>wd r. s = wd @ r \<and> wd \<noteq> [] \<and> n = length wd \<and>
        (\<forall>c\<in>set wd. in_cls w Word c) \<and> g = g0(2 \<mapsto> wd)"
  then obtain wd r where s: "s = wd @ r" and ne: "wd \<noteq> []" and n: "n = length wd"
    and wc: "\<forall>c\<in>set wd. in_cls w Word c" and g: "g = g0(2 \<mapsto> wd)"
    by blast
  have t: "take n s = wd" using s n by simp
  from s ne n wc have "(n, g0) \<in> set (rmatch w (Plus Word) bol s g0)"
    unfolding rmatch_Plus_iff by blast
  with g t show "(n, g) \<in> set (rmatch w (Grp 2 (Plus Word)) bol s g0)"
    unfolding rmatch_Grp_iff by blast
qed

lemma rmatch_grp3_iff:
  "(n, g) \<in> set (rmatch w (Grp 3 (Alt Eol (Plus Space))) bol s g0) \<longleftrightarrow>
     (\<exists>ws2 r. s = ws2 @ r \<and> n = length ws2 \<and> (ws2 = [] \<longrightarrow> r = [] \<or> r = [10]) \<and>
        (\<forall>c\<in>set ws2. in_cls w Space c) \<and> g = g0(3 \<mapsto> ws2))"
proof
  assume "(n, g) \<in> set (rmatch w (Grp 3 (Alt Eol (Plus Space))) bol s g0)"
  then obtain g' where g: "g = g'(3 \<mapsto> take n s)"
    and alt: "(n, g') \<in> set (rmatch w Eol bol s g0) \<or> (n, g') \<in> set (rmatch w (Plus Space) bol s g0)"
    by (auto simp only: rmatch_Grp_iff rmatch.simps(5) set_append Un_iff)
  from alt show "\<exists>ws2 r. s = ws2 @ r \<and> n = length ws2 \<and> (ws2 = [] \<longrightarrow> r = [] \<or> r = [10]) \<and>
        (\<forall>c\<in>set ws2. in_cls w Space c) \<and> g = g0(3 \<mapsto> ws2)"
  proof
    assume "(n, g') \<in> set (rmatch w Eol bol s g0)"
    then have "s = [] \<or> s = [10]" "n = 0" "g' = g0"
      by (auto simp: rmatch.simps split: if_splits)
    with g have "s = [] @ s \<and> n = length ([]::nat list) \<and>
        (([]::nat list) = [] \<longrightarrow> s = [] \<or> s = [10]) \<and>
        (\<forall>c\<in>set []. in_cls w Space c) \<and> g = g0(3 \<mapsto> [])"
      by auto
    then show ?thesis by blast
  next
    assume "(n, g') \<in> set (rmatch w (Plus Space) bol s g0)"
    then obtain xs ys where "g' = g0" "s = xs @ ys" "xs \<noteq> []" "length xs = n"
      "\<forall>c\<in>set xs. in_cls w Space c"
      unfolding rmatch_Plus_iff by blast
    with g have "s = xs @ ys \<and> n = length xs \<and> (xs = [] \<longrightarrow> ys = [] \<or> ys = [10]) \<and>
        (\<forall>c\<in>set xs. in_cls w Space c) \<and> g = g0(3 \<mapsto> xs)"
      by simp
    then show ?thesis by blast
  qed
next
  assume "\<exists>ws2 r. s = ws2 @ r \<and> n = length ws2 \<and> (ws2 = [] \<longrightarrow> r = [] \<or> r = [10]) \<and>
        (\<forall>c\<in>set ws2. in_cls w Space c) \<and> g = g0(3 \<mapsto> ws2)"
  then obtain ws2 r where s: "s = ws2 @ r" and n: "n = length ws2"
    and b: "ws2 = [] \<longrightarrow> r = [] \<or> r = [10]"
    and sp: "\<forall>c\<in>set ws2. in_cls w Space c" and g: "g = g0(3 \<mapsto> ws2)"
    by blast
  have t: "take n s = ws2" using s n by simp
  have "(n, g0) \<in> set (rmatch w Eol bol s g0) \<or> (n, g0) \<in> set (rmatch w (Plus Space) bol s g0)"
  proof (cases "ws2 = []")
    case True
    with b n s show ?thesis by (auto simp: rmatch.simps)
  next
    case False
    with s n sp have "(n, g0) \<in> set (rmatch w (Plus Space) bol s g0)"
      unfolding rmatch_Plus_iff by blast
    then show ?thesis ..
  qed
  then have "(n, g0) \<in> set (rmatch w (Alt Eol (Plus Space)) bol s g0)"
    by (simp only: rmatch.simps(5) set_append Un_iff)
  with g t show "(n, g) \<in> set (rmatch w (Grp 3 (Alt Eol (Plus Space))) bol s g0)"
    unfolding rmatch_Grp_iff by blast
qed


lemma engine_re_sound:
  assumes "(n, g) \<in> set (rmatch w engine_re bol s g0)"
  shows "\<exists>ws1 wd ws2 rest. s = ws1 @ 33 # wd @ ws2 @ rest \<and>
           n = length ws1 + 1 + length wd + length ws2 \<and>
           engine_match w bol ws1 wd ws2 rest \<and> g = g0(1 \<mapsto> ws1, 2 \<mapsto> wd, 3 \<mapsto> ws2)"
proof -
  from assms obtain n1 g1 m1 where n: "n = n1 + m1"
    and a1: "(n1, g1) \<in> set (rmatch w (Grp 1 (Alt Bol (Plus Space))) bol s g0)"
    and r1: "(m1, g) \<in> set (rmatch w (Seq (Lit 33) (Seq (Grp 2 (Plus Word))
                 (Grp 3 (Alt Eol (Plus Space))))) (bol \<and> n1 = 0) (drop n1 s) g1)"
    unfolding engine_re_def rmatch_Seq_iff [of _ _ _ "Grp 1 (Alt Bol (Plus Space))"] by blast
  from a1 obtain ws1 s1 where s: "s = ws1 @ s1" and n1: "n1 = length ws1"
    and b1: "ws1 = [] \<longrightarrow> bol" and sp1: "\<forall>c\<in>set ws1. in_cls w Space c" and g1: "g1 = g0(1 \<mapsto> ws1)"
    unfolding rmatch_grp1_iff by blast
  have d1: "drop n1 s = s1" using s n1 by simp
  from r1 obtain n2 g2 m2 where m1: "m1 = n2 + m2"
    and a2: "(n2, g2) \<in> set (rmatch w (Lit 33) (bol \<and> n1 = 0) s1 g1)"
    and r2: "(m2, g) \<in> set (rmatch w (Seq (Grp 2 (Plus Word)) (Grp 3 (Alt Eol (Plus Space))))
                 ((bol \<and> n1 = 0) \<and> n2 = 0) (drop n2 s1) g2)"
    unfolding d1 rmatch_Seq_iff [of _ _ _ "Lit 33"] by blast
  from a2 obtain s2 where n2: "n2 = 1" and g2: "g2 = g1" and s1: "s1 = 33 # s2"
    unfolding rmatch_Lit_iff by blast
  have d2: "drop n2 s1 = s2" using s1 n2 by simp
  from r2 obtain n3 g3 m3 where m2: "m2 = n3 + m3"
    and a3: "(n3, g3) \<in> set (rmatch w (Grp 2 (Plus Word)) ((bol \<and> n1 = 0) \<and> n2 = 0) s2 g2)"
    and r3: "(m3, g) \<in> set (rmatch w (Grp 3 (Alt Eol (Plus Space)))
                 (((bol \<and> n1 = 0) \<and> n2 = 0) \<and> n3 = 0) (drop n3 s2) g3)"
    unfolding d2 rmatch_Seq_iff [of _ _ _ "Grp 2 (Plus Word)"] by blast
  from a3 obtain wd s3 where s2: "s2 = wd @ s3" and wne: "wd \<noteq> []" and n3: "n3 = length wd"
    and wc: "\<forall>c\<in>set wd. in_cls w Word c" and g3: "g3 = g2(2 \<mapsto> wd)"
    unfolding rmatch_grp2_iff by blast
  have d3: "drop n3 s2 = s3" using s2 n3 by simp
  from r3 obtain ws2 rest where s3: "s3 = ws2 @ rest" and m3: "m3 = length ws2"
    and b3: "ws2 = [] \<longrightarrow> rest = [] \<or> rest = [10]"
    and sp3: "\<forall>c\<in>set ws2. in_cls w Space c" and g: "g = g3(3 \<mapsto> ws2)"
    unfolding d3 rmatch_grp3_iff by blast
  have "s = ws1 @ 33 # wd @ ws2 @ rest" using s s1 s2 s3 by simp
  moreover have "n = length ws1 + 1 + length wd + length ws2"
    using n n1 m1 n2 m2 n3 m3 by simp
  moreover have "engine_match w bol ws1 wd ws2 rest"
    using b1 sp1 wne wc b3 sp3 by (simp add: engine_match_def)
  moreover have "g = g0(1 \<mapsto> ws1, 2 \<mapsto> wd, 3 \<mapsto> ws2)"
    using g g3 g2 g1 by simp
  ultimately show ?thesis by blast
qed

lemma engine_re_complete:
  assumes "engine_match w bol ws1 wd ws2 rest"
  shows "(length ws1 + 1 + length wd + length ws2, g0(1 \<mapsto> ws1, 2 \<mapsto> wd, 3 \<mapsto> ws2))
           \<in> set (rmatch w engine_re bol (ws1 @ 33 # wd @ ws2 @ rest) g0)"
proof -
  let ?s = "ws1 @ 33 # wd @ ws2 @ rest"
  let ?g1 = "g0(1 \<mapsto> ws1)"
  let ?g2 = "?g1(2 \<mapsto> wd)"
  let ?g3 = "?g2(3 \<mapsto> ws2)"
  from assms have b1: "ws1 = [] \<longrightarrow> bol" and sp1: "\<forall>c\<in>set ws1. in_cls w Space c"
    and wne: "wd \<noteq> []" and wc: "\<forall>c\<in>set wd. in_cls w Word c"
    and b3: "ws2 = [] \<longrightarrow> rest = [] \<or> rest = [10]" and sp3: "\<forall>c\<in>set ws2. in_cls w Space c"
    by (simp_all add: engine_match_def)
  have a3: "(length ws2, ?g3) \<in> set (rmatch w (Grp 3 (Alt Eol (Plus Space))) b (ws2 @ rest) ?g2)" for b
    unfolding rmatch_grp3_iff using b3 sp3 by blast
  have a2: "(length wd, ?g2) \<in> set (rmatch w (Grp 2 (Plus Word)) b (wd @ ws2 @ rest) ?g1)" for b
    unfolding rmatch_grp2_iff using wne wc by blast
  have r2: "(length wd + length ws2, ?g3) \<in> set (rmatch w (Seq (Grp 2 (Plus Word))
              (Grp 3 (Alt Eol (Plus Space)))) b (wd @ ws2 @ rest) ?g1)" for b
    unfolding rmatch_Seq_iff [of _ _ _ "Grp 2 (Plus Word)"]
    using a2 [of b] a3 [of "b \<and> length wd = 0"]
    by (intro exI [of _ "length wd"] exI [of _ ?g2] exI [of _ "length ws2"]) simp
  have a1: "(1, ?g1) \<in> set (rmatch w (Lit 33) b (33 # wd @ ws2 @ rest) ?g1)" for b
    unfolding rmatch_Lit_iff by simp
  have r1: "(1 + (length wd + length ws2), ?g3) \<in> set (rmatch w (Seq (Lit 33) (Seq (Grp 2 (Plus Word))
              (Grp 3 (Alt Eol (Plus Space))))) b (33 # wd @ ws2 @ rest) ?g1)" for b
    unfolding rmatch_Seq_iff [of _ _ _ "Lit 33"]
    using a1 [of b] r2 [of "b \<and> (1::nat) = 0"]
    by (intro exI [of _ "1::nat"] exI [of _ ?g1] exI [of _ "length wd + length ws2"]) simp
  have a0: "(length ws1, ?g1) \<in> set (rmatch w (Grp 1 (Alt Bol (Plus Space))) bol ?s g0)"
    unfolding rmatch_grp1_iff using b1 sp1 by blast
  have "(length ws1 + (1 + (length wd + length ws2)), ?g3) \<in> set (rmatch w engine_re bol ?s g0)"
    unfolding engine_re_def rmatch_Seq_iff [of _ _ _ "Grp 1 (Alt Bol (Plus Space))"]
    using a0 r1 [of "bol \<and> length ws1 = 0"]
    by (intro exI [of _ "length ws1"] exI [of _ ?g1] exI [of _ "1 + (length wd + length ws2)"]) simp
  then show ?thesis by (simp add: add.assoc)
qed

section \<open>Searching and substituting\<close>


lemma search_from_None_iff:
  "search_from w r pos s = None \<longleftrightarrow>
     (\<forall>i\<le>length s. rmatch w r (pos + i = 0) (drop i s) Map.empty = [])"
proof (induction s arbitrary: pos)
  case Nil
  then show ?case by (auto split: list.splits)
next
  case (Cons c s)
  show ?case
  proof (cases "rmatch w r (pos = 0) (c # s) Map.empty")
    case Nil
    have "(\<forall>i\<le>length (c # s). rmatch w r (pos + i = 0) (drop i (c # s)) Map.empty = []) \<longleftrightarrow>
          (\<forall>i\<le>length s. rmatch w r (Suc pos + i = 0) (drop i s) Map.empty = [])"
    proof
      assume a: "\<forall>i\<le>length (c # s). rmatch w r (pos + i = 0) (drop i (c # s)) Map.empty = []"
      show "\<forall>i\<le>length s. rmatch w r (Suc pos + i = 0) (drop i s) Map.empty = []"
      proof (intro allI impI)
        fix i assume "i \<le> length s"
        with a have "rmatch w r (pos + Suc i = 0) (drop (Suc i) (c # s)) Map.empty = []"
          by (metis Suc_le_mono length_Cons)
        then show "rmatch w r (Suc pos + i = 0) (drop i s) Map.empty = []" by simp
      qed
    next
      assume a: "\<forall>i\<le>length s. rmatch w r (Suc pos + i = 0) (drop i s) Map.empty = []"
      show "\<forall>i\<le>length (c # s). rmatch w r (pos + i = 0) (drop i (c # s)) Map.empty = []"
      proof (intro allI impI)
        fix i assume i: "i \<le> length (c # s)"
        show "rmatch w r (pos + i = 0) (drop i (c # s)) Map.empty = []"
        proof (cases i)
          case 0
          with Nil show ?thesis by simp
        next
          case (Suc j)
          with i a have "rmatch w r (Suc pos + j = 0) (drop j s) Map.empty = []" by simp
          with Suc show ?thesis by simp
        qed
      qed
    qed
    with Nil Cons.IH [of "Suc pos"] show ?thesis by simp
  next
    case (Cons x xs)
    then have "search_from w r pos (c # s) \<noteq> None" by (cases x) simp
    moreover have "\<not> (\<forall>i\<le>length (c # s). rmatch w r (pos + i = 0) (drop i (c # s)) Map.empty = [])"
      using Cons by (auto intro!: exI [of _ 0])
    ultimately show ?thesis by blast
  qed
qed

lemma search_from_Some:
  "search_from w r pos s = Some m \<Longrightarrow>
     \<exists>i n g rs. i \<le> length s \<and>
       (\<forall>j<i. rmatch w r (pos + j = 0) (drop j s) Map.empty = []) \<and>
       rmatch w r (pos + i = 0) (drop i s) Map.empty = (n, g) # rs \<and>
       m = \<lparr>m_start = pos + i, m_end = pos + i + n, m_group = g\<rparr>"
proof (induction s arbitrary: pos)
  case Nil
  then show ?case by (auto split: list.splits)
next
  case (Cons c s)
  show ?case
  proof (cases "rmatch w r (pos = 0) (c # s) Map.empty")
    case Nil
    with Cons.prems have "search_from w r (Suc pos) s = Some m" by simp
    from Cons.IH [OF this] obtain i n g rs where i: "i \<le> length s"
      and no: "\<forall>j<i. rmatch w r (Suc pos + j = 0) (drop j s) Map.empty = []"
      and hd: "rmatch w r (Suc pos + i = 0) (drop i s) Map.empty = (n, g) # rs"
      and m: "m = \<lparr>m_start = Suc pos + i, m_end = Suc pos + i + n, m_group = g\<rparr>"
      by blast
    have "\<forall>j<Suc i. rmatch w r (pos + j = 0) (drop j (c # s)) Map.empty = []"
    proof (intro allI impI)
      fix j assume j: "j < Suc i"
      show "rmatch w r (pos + j = 0) (drop j (c # s)) Map.empty = []"
      proof (cases j)
        case 0
        with Nil show ?thesis by simp
      next
        case (Suc k)
        with j no have "rmatch w r (Suc pos + k = 0) (drop k s) Map.empty = []" by simp
        with Suc show ?thesis by simp
      qed
    qed
    moreover have "rmatch w r (pos + Suc i = 0) (drop (Suc i) (c # s)) Map.empty = (n, g) # rs"
      using hd by simp
    moreover have "m = \<lparr>m_start = pos + Suc i, m_end = pos + Suc i + n, m_group = g\<rparr>"
      using m by simp
    moreover have "Suc i \<le> length (c # s)" using i by simp
    ultimately show ?thesis by blast
  next
    case (Cons x xs)
    obtain n g where x: "x = (n, g)" by (cases x)
    with Cons Cons.prems have "m = \<lparr>m_start = pos, m_end = pos + n, m_group = g\<rparr>" by simp
    with Cons x have "0 \<le> length (c # s) \<and>
       (\<forall>j<0. rmatch w r (pos + j = 0) (drop j (c # s)) Map.empty = []) \<and>
       rmatch w r (pos + 0 = 0) (drop 0 (c # s)) Map.empty = (n, g) # xs \<and>
       m = \<lparr>m_start = pos + 0, m_end = pos + 0 + n, m_group = g\<rparr>"
      by simp
    then show ?thesis by blast
  qed
qed

lemma sub_from_skip:
  "i \<le> length s \<Longrightarrow> (\<forall>j<i. rmatch w r (bol \<and> j = 0) (drop j s) Map.empty = []) \<Longrightarrow>
     sub_from w r bol s = take i s @ sub_from w r (bol \<and> i = 0) (drop i s)"
proof (induction i arbitrary: s bol)
  case 0
  then show ?case by simp
next
  case (Suc i)
  then obtain c s' where s: "s = c # s'" by (cases s) auto
  from Suc.prems(2) have "rmatch w r (bol \<and> (0::nat) = 0) (drop 0 s) Map.empty = []" by blast
  then have h: "rmatch w r bol (c # s') Map.empty = []" using s by simp
  have al: "\<forall>j<i. rmatch w r (False \<and> j = 0) (drop j s') Map.empty = []"
  proof (intro allI impI)
    fix j assume "j < i"
    then have "Suc j < Suc i" by simp
    with Suc.prems(2) have "rmatch w r (bol \<and> Suc j = 0) (drop (Suc j) s) Map.empty = []"
      by blast
    then show "rmatch w r (False \<and> j = 0) (drop j s') Map.empty = []" using s by simp
  qed
  have le: "i \<le> length s'" using Suc.prems(1) s by simp
  have "sub_from w r False s' = take i s' @ sub_from w r (False \<and> i = 0) (drop i s')"
    using le al by (rule Suc.IH)
  with h s show ?case by (simp add: sub_from.simps)
qed

lemma sub_from_match:
  "rmatch w r bol s Map.empty = (n, g) # rs \<Longrightarrow> 0 < n \<Longrightarrow> s \<noteq> [] \<Longrightarrow>
     sub_from w r bol s = sub_from w r False (drop n s)"
  by (cases s) (simp_all add: sub_from.simps)

section \<open>Engine tokens\<close>

lemma newline_is_space: "in_cls w Space 10"
  by (simp add: py_isspace_def)

lemma bang_not_space: "\<not> in_cls w Space 33"
  by (simp add: py_isspace_def)

lemma concat_map_head:
  "concat (map F xs) = y # ys \<Longrightarrow> \<exists>x\<in>set xs. \<exists>ys'. F x = y # ys'"
proof (induction xs)
  case Nil
  then show ?case by simp
next
  case (Cons x xs)
  show ?case
  proof (cases "F x")
    case Nil
    with Cons.prems have "concat (map F xs) = y # ys" by simp
    from Cons.IH [OF this] show ?thesis by auto
  next
    case (Cons z zs)
    with Cons.prems have "F x = y # zs" by simp
    then show ?thesis by auto
  qed
qed

lemma map_shift_head:
  "map (\<lambda>(n', g''). (n + n', g'')) zs = (m, h) # rs \<Longrightarrow> \<exists>n' rs'. m = n + n' \<and> zs = (n', h) # rs'"
  by (cases zs) auto

lemma rmatch_Seq_head:
  assumes "rmatch w (Seq a b) bol s g = (m, h) # rs"
  shows "\<exists>n g' n' rs'. m = n + n' \<and> (n, g') \<in> set (rmatch w a bol s g) \<and>
           rmatch w b (bol \<and> n = 0) (drop n s) g' = (n', h) # rs'"
proof -
  let ?F = "\<lambda>(n, g'). map (\<lambda>(n', g''). (n + n', g'')) (rmatch w b (bol \<and> n = 0) (drop n s) g')"
  from assms have "concat (map ?F (rmatch w a bol s g)) = (m, h) # rs"
    by (simp only: rmatch.simps)
  from concat_map_head [OF this] obtain x ys' where x: "x \<in> set (rmatch w a bol s g)"
    and f: "?F x = (m, h) # ys'"
    by blast
  obtain n g' where xe: "x = (n, g')" by (cases x)
  with f have "map (\<lambda>(n', g''). (n + n', g'')) (rmatch w b (bol \<and> n = 0) (drop n s) g') = (m, h) # ys'"
    by simp
  from map_shift_head [OF this] obtain n' rs' where "m = n + n'"
    "rmatch w b (bol \<and> n = 0) (drop n s) g' = (n', h) # rs'"
    by blast
  with x xe show ?thesis by blast
qed

lemma rev_upt_head: "0 < L \<Longrightarrow> rev [1..<Suc L] = L # rev [1..<L]"
  by simp

lemma rmatch_grp3_head:
  assumes "rmatch w (Grp 3 (Alt Eol (Plus Space))) bol s g0 = (n, g) # rs"
  shows "n = (if s = [] \<or> s = [10] then 0 else length (takeWhile (in_cls w Space) s))"
proof (cases "s = [] \<or> s = [10]")
  case True
  with assms show ?thesis by (auto simp: rmatch.simps)
next
  case False
  show ?thesis
  proof (cases "length (takeWhile (in_cls w Space) s)")
    case 0
    with assms False show ?thesis by (simp add: rmatch.simps)
  next
    case (Suc k)
    with assms False show ?thesis by (simp add: rmatch.simps)
  qed
qed

lemma engine_re_head:
  assumes "rmatch w engine_re bol s g0 = (n, g) # rs"
  shows "\<exists>ws1 wd ws2 rest. s = ws1 @ 33 # wd @ ws2 @ rest \<and>
           n = length ws1 + 1 + length wd + length ws2 \<and>
           engine_match w bol ws1 wd ws2 rest \<and> g = g0(1 \<mapsto> ws1, 2 \<mapsto> wd, 3 \<mapsto> ws2) \<and>
           length ws2 = (if ws2 @ rest = [] \<or> ws2 @ rest = [10] then 0
                         else length (takeWhile (in_cls w Space) (ws2 @ rest)))"
proof -
  from assms obtain n1 g1 m1 rs1 where n: "n = n1 + m1"
    and a1: "(n1, g1) \<in> set (rmatch w (Grp 1 (Alt Bol (Plus Space))) bol s g0)"
    and r1: "rmatch w (Seq (Lit 33) (Seq (Grp 2 (Plus Word))
                 (Grp 3 (Alt Eol (Plus Space))))) (bol \<and> n1 = 0) (drop n1 s) g1 = (m1, g) # rs1"
    unfolding engine_re_def using rmatch_Seq_head by blast
  from a1 obtain ws1 s1 where s: "s = ws1 @ s1" and n1: "n1 = length ws1"
    and b1: "ws1 = [] \<longrightarrow> bol" and sp1: "\<forall>c\<in>set ws1. in_cls w Space c" and g1: "g1 = g0(1 \<mapsto> ws1)"
    unfolding rmatch_grp1_iff by blast
  have d1: "drop n1 s = s1" using s n1 by simp
  from r1 obtain n2 g2 m2 rs2 where m1: "m1 = n2 + m2"
    and a2: "(n2, g2) \<in> set (rmatch w (Lit 33) (bol \<and> n1 = 0) s1 g1)"
    and r2: "rmatch w (Seq (Grp 2 (Plus Word)) (Grp 3 (Alt Eol (Plus Space))))
                 ((bol \<and> n1 = 0) \<and> n2 = 0) (drop n2 s1) g2 = (m2, g) # rs2"
    unfolding d1 using rmatch_Seq_head by blast
  from a2 obtain s2 where n2: "n2 = 1" and g2: "g2 = g1" and s1: "s1 = 33 # s2"
    unfolding rmatch_Lit_iff by blast
  have d2: "drop n2 s1 = s2" using s1 n2 by simp
  from r2 obtain n3 g3 m3 rs3 where m2: "m2 = n3 + m3"
    and a3: "(n3, g3) \<in> set (rmatch w (Grp 2 (Plus Word)) ((bol \<and> n1 = 0) \<and> n2 = 0) s2 g2)"
    and r3: "rmatch w (Grp 3 (Alt Eol (Plus Space)))
                 (((bol \<and> n1 = 0) \<and> n2 = 0) \<and> n3 = 0) (drop n3 s2) g3 = (m3, g) # rs3"
    unfolding d2 using rmatch_Seq_head by blast
  from a3 obtain wd s3 where s2: "s2 = wd @ s3" and wne: "wd \<noteq> []" and n3: "n3 = length wd"
    and wc: "\<forall>c\<in>set wd. in_cls w Word c" and g3: "g3 = g2(2 \<mapsto> wd)"
    unfolding rmatch_grp2_iff by blast
  have d3: "drop n3 s2 = s3" using s2 n3 by simp
  from r3 have "(m3, g) \<in> set (rmatch w (Grp 3 (Alt Eol (Plus Space)))
                 (((bol \<and> n1 = 0) \<and> n2 = 0) \<and> n3 = 0) (drop n3 s2) g3)"
    by simp
  then obtain ws2 rest where s3: "s3 = ws2 @ rest" and m3: "m3 = length ws2"
    and b3: "ws2 = [] \<longrightarrow> rest = [] \<or> rest = [10]"
    and sp3: "\<forall>c\<in>set ws2. in_cls w Space c" and g: "g = g3(3 \<mapsto> ws2)"
    unfolding d3 rmatch_grp3_iff by blast
  from rmatch_grp3_head [OF r3]
  have gr: "length ws2 = (if ws2 @ rest = [] \<or> ws2 @ rest = [10] then 0
                         else length (takeWhile (in_cls w Space) (ws2 @ rest)))"
    unfolding d3 s3 m3 .
  have "s = ws1 @ 33 # wd @ ws2 @ rest" using s s1 s2 s3 by simp
  moreover have "n = length ws1 + 1 + length wd + length ws2"
    using n n1 m1 n2 m2 n3 m3 by simp
  moreover have "engine_match w bol ws1 wd ws2 rest"
    using b1 sp1 wne wc b3 sp3 by (simp add: engine_match_def)
  moreover have "g = g0(1 \<mapsto> ws1, 2 \<mapsto> wd, 3 \<mapsto> ws2)"
    using g g3 g2 g1 by simp
  ultimately show ?thesis using gr by blast
qed

lemma match_is_token:
  assumes "engine_match w (bol \<and> p = 0) ws1 wd ws2 rest" and "p \<le> length txt"
    and "drop p txt = ws1 @ 33 # wd @ ws2 @ rest"
  shows "txt = (take p txt @ ws1) @ 33 # wd @ (ws2 @ rest)"
    and "is_token w bol (take p txt @ ws1) wd (ws2 @ rest)"
proof -
  have "txt = take p txt @ drop p txt" by simp
  with assms(3) show "txt = (take p txt @ ws1) @ 33 # wd @ (ws2 @ rest)" by simp
  from assms(1) have b1: "ws1 = [] \<longrightarrow> bol \<and> p = 0" and sp1: "\<forall>c\<in>set ws1. in_cls w Space c"
    and wne: "wd \<noteq> []" and wc: "\<forall>c\<in>set wd. in_cls w Word c"
    and b3: "ws2 = [] \<longrightarrow> rest = [] \<or> rest = [10]" and sp3: "\<forall>c\<in>set ws2. in_cls w Space c"
    by (simp_all add: engine_match_def)
  have pre: "if take p txt @ ws1 = [] then bol else in_cls w Space (last (take p txt @ ws1))"
  proof (cases "ws1 = []")
    case True
    with b1 show ?thesis by simp
  next
    case False
    then have "last (take p txt @ ws1) = last ws1" "last ws1 \<in> set ws1" by simp_all
    with sp1 False show ?thesis by simp
  qed
  have post: "ws2 @ rest = [] \<or> in_cls w Space (hd (ws2 @ rest))"
  proof (cases "ws2 = []")
    case True
    with b3 show ?thesis by (auto simp: py_isspace_def)
  next
    case False
    then have "hd (ws2 @ rest) = hd ws2" "hd ws2 \<in> set ws2" by simp_all
    with sp3 show ?thesis by simp
  qed
  from wne wc pre post show "is_token w bol (take p txt @ ws1) wd (ws2 @ rest)"
    by (auto simp: is_token_def)
qed

lemma token_is_match:
  assumes "is_token w bol pre wd post"
  shows "\<exists>p. p \<le> length pre \<and>
           rmatch w engine_re (bol \<and> p = 0) (drop p (pre @ 33 # wd @ post)) g0 \<noteq> []"
proof -
  from assms have wne: "wd \<noteq> []" and wc: "\<forall>c\<in>set wd. in_cls w Word c"
    and pre: "if pre = [] then bol else in_cls w Space (last pre)"
    and post: "post = [] \<or> in_cls w Space (hd post)"
    by (auto simp: is_token_def split: if_splits)
  obtain ws2 rest where po: "post = ws2 @ rest" and b3: "ws2 = [] \<longrightarrow> rest = [] \<or> rest = [10]"
    and sp3: "\<forall>c\<in>set ws2. in_cls w Space c"
  proof (cases post)
    case Nil
    then have "post = [] @ []" "([]::nat list) = [] \<longrightarrow> ([]::nat list) = [] \<or> ([]::nat list) = [10]"
      "\<forall>c\<in>set []. in_cls w Space c" by simp_all
    then show ?thesis by (rule that)
  next
    case (Cons c post')
    with post have "post = [c] @ post'" "[c] = [] \<longrightarrow> post' = [] \<or> post' = [10]"
      "\<forall>d\<in>set [c]. in_cls w Space d" by simp_all
    then show ?thesis by (rule that)
  qed
  obtain p ws1 where p: "p \<le> length pre" and dr: "drop p pre = ws1"
    and b1: "ws1 = [] \<longrightarrow> bol \<and> p = 0" and sp1: "\<forall>c\<in>set ws1. in_cls w Space c"
  proof (cases "pre = []")
    case True
    with pre have "0 \<le> length pre" "drop 0 pre = []"
      "([]::nat list) = [] \<longrightarrow> bol \<and> (0::nat) = 0" "\<forall>c\<in>set []. in_cls w Space c" by simp_all
    then show ?thesis by (rule that)
  next
    case False
    then have e: "pre = butlast pre @ [last pre]" by simp
    have "drop (length (butlast pre)) pre = drop (length (butlast pre)) (butlast pre @ [last pre])"
      using e by simp
    then have d: "drop (length (butlast pre)) pre = [last pre]" by simp
    have f1: "length (butlast pre) \<le> length pre" by simp
    have f4: "[last pre] = [] \<longrightarrow> bol \<and> length (butlast pre) = 0" by simp
    have f5: "\<forall>c\<in>set [last pre]. in_cls w Space c" using pre False by simp
    show ?thesis by (rule that [OF f1 d f4 f5])
  qed
  have em: "engine_match w (bol \<and> p = 0) ws1 wd ws2 rest"
    using b1 sp1 wne wc b3 sp3 by (simp add: engine_match_def)
  have "drop p (pre @ 33 # wd @ post) = ws1 @ 33 # wd @ ws2 @ rest"
    using p dr po by simp
  with engine_re_complete [OF em, of g0]
  have "rmatch w engine_re (bol \<and> p = 0) (drop p (pre @ 33 # wd @ post)) g0 \<noteq> []"
    by auto
  with p show ?thesis by blast
qed

lemma no_token_no_match:
  assumes "\<not> has_token w bol txt" and "p \<le> length txt"
  shows "rmatch w engine_re (bol \<and> p = 0) (drop p txt) Map.empty = []"
proof (rule ccontr)
  assume "rmatch w engine_re (bol \<and> p = 0) (drop p txt) Map.empty \<noteq> []"
  then obtain n g where "(n, g) \<in> set (rmatch w engine_re (bol \<and> p = 0) (drop p txt) Map.empty)"
    by (cases "rmatch w engine_re (bol \<and> p = 0) (drop p txt) Map.empty") auto
  from engine_re_sound [OF this] obtain ws1 wd ws2 rest
    where d: "drop p txt = ws1 @ 33 # wd @ ws2 @ rest"
      and em: "engine_match w (bol \<and> p = 0) ws1 wd ws2 rest"
    by blast
  from match_is_token [OF em assms(2) d] have "has_token w bol txt"
    unfolding has_token_def by blast
  with assms(1) show False ..
qed

lemma re_search_None_iff: "re_search w engine_re txt = None \<longleftrightarrow> \<not> has_token w True txt"
proof
  assume n: "re_search w engine_re txt = None"
  show "\<not> has_token w True txt"
  proof
    assume "has_token w True txt"
    then obtain pre wd post where t: "txt = pre @ 33 # wd @ post" and tk: "is_token w True pre wd post"
      by (auto simp: has_token_def)
    from token_is_match [OF tk, of Map.empty] obtain p where "p \<le> length pre"
      and ne: "rmatch w engine_re (True \<and> p = 0) (drop p (pre @ 33 # wd @ post)) Map.empty \<noteq> []"
      by blast
    then have "p \<le> length txt" using t by simp
    with n have "rmatch w engine_re (0 + p = 0) (drop p txt) Map.empty = []"
      unfolding re_search_def search_from_None_iff by blast
    with ne t show False by simp
  qed
next
  assume nt: "\<not> has_token w True txt"
  have "\<forall>i\<le>length txt. rmatch w engine_re (0 + i = 0) (drop i txt) Map.empty = []"
    using no_token_no_match [OF nt] by simp
  then show "re_search w engine_re txt = None"
    unfolding re_search_def search_from_None_iff .
qed

lemma sub_from_no_token:
  assumes "\<not> has_token w bol txt"
  shows "sub_from w engine_re bol txt = txt"
proof -
  have "\<forall>j<length txt. rmatch w engine_re (bol \<and> j = 0) (drop j txt) Map.empty = []"
    using no_token_no_match [OF assms] by simp
  then have "sub_from w engine_re bol txt =
      take (length txt) txt @ sub_from w engine_re (bol \<and> length txt = 0) (drop (length txt) txt)"
    by (intro sub_from_skip) simp_all
  then show ?thesis by (simp add: sub_from.simps)
qed

lemma takeWhile_run:
  "(\<forall>c\<in>set xs. P c) \<Longrightarrow> ys = [] \<or> \<not> P (hd ys) \<Longrightarrow> takeWhile P (xs @ ys) = xs"
  by (cases ys) (simp_all add: takeWhile_append2)

lemma dropWhile_run:
  "(\<forall>c\<in>set xs. P c) \<Longrightarrow> ys = [] \<or> \<not> P (hd ys) \<Longrightarrow> dropWhile P (xs @ ys) = ys"
  by (cases ys) (simp_all add: dropWhile_append2)

lemma word_run_unique:
  assumes disj: "classes_disjoint w"
    and e: "wd @ post = wd' @ post'"
    and w1: "\<forall>c\<in>set wd. in_cls w Word c" and p1: "post = [] \<or> in_cls w Space (hd post)"
    and w2: "\<forall>c\<in>set wd'. in_cls w Word c" and p2: "post' = [] \<or> in_cls w Space (hd post')"
  shows "wd = wd' \<and> post = post'"
proof -
  from disj have d: "in_cls w Space c \<Longrightarrow> \<not> in_cls w Word c" for c
    unfolding classes_disjoint_def by blast
  from p1 d have "post = [] \<or> \<not> in_cls w Word (hd post)" by blast
  with w1 have a: "takeWhile (in_cls w Word) (wd @ post) = wd" by (rule takeWhile_run)
  from p2 d have "post' = [] \<or> \<not> in_cls w Word (hd post')" by blast
  with w2 have b: "takeWhile (in_cls w Word) (wd' @ post') = wd'" by (rule takeWhile_run)
  from a b e have "wd = wd'" by simp
  with e show ?thesis by simp
qed

lemma before_token_eq:
  assumes "\<forall>c\<in>set ws1. in_cls w Space c" and "kept = [] \<or> \<not> in_cls w Space (last kept)"
  shows "before_token w (kept @ ws1) = kept"
proof -
  have a: "\<forall>c\<in>set (rev ws1). in_cls w Space c" using assms(1) by simp
  have b: "rev kept = [] \<or> \<not> in_cls w Space (hd (rev kept))"
    using assms(2) by (cases "kept = []") (simp_all add: hd_rev)
  have "dropWhile (in_cls w Space) (rev ws1 @ rev kept) = rev kept"
    using a b by (rule dropWhile_run)
  then show ?thesis by (simp add: before_token_def)
qed

lemma after_token_eq:
  assumes "length ws2 = (if ws2 @ rest = [] \<or> ws2 @ rest = [10] then 0
                         else length (takeWhile (in_cls w Space) (ws2 @ rest)))"
  shows "after_token w (ws2 @ rest) = rest"
proof (cases "ws2 @ rest = [] \<or> ws2 @ rest = [10]")
  case True
  with assms have "ws2 = []" by simp
  with True show ?thesis by (auto simp: after_token_def)
next
  case False
  with assms have l: "length ws2 = length (takeWhile (in_cls w Space) (ws2 @ rest))" by simp
  have "takeWhile (in_cls w Space) (ws2 @ rest) @ dropWhile (in_cls w Space) (ws2 @ rest) = ws2 @ rest"
    by simp
  then have "dropWhile (in_cls w Space) (ws2 @ rest) = rest"
    using l by (metis append_eq_append_conv)
  with False show ?thesis by (simp add: after_token_def)
qed

lemma first_match:
  assumes disj: "classes_disjoint w" and ft: "first_token w bol pre wd post"
    and s: "s = pre @ 33 # wd @ post"
  shows "\<exists>p n g rs. p \<le> length s \<and>
           (\<forall>j<p. rmatch w engine_re (bol \<and> j = 0) (drop j s) Map.empty = []) \<and>
           rmatch w engine_re (bol \<and> p = 0) (drop p s) Map.empty = (n, g) # rs \<and>
           0 < n \<and> g 2 = Some wd \<and> take p s = before_token w pre \<and>
           drop n (drop p s) = after_token w post"
proof -
  from ft have tk: "is_token w bol pre wd post"
    and left: "\<And>pre' wd' post'. pre' @ 33 # wd' @ post' = pre @ 33 # wd @ post \<Longrightarrow>
        is_token w bol pre' wd' post' \<Longrightarrow> length pre \<le> length pre'"
    unfolding first_token_def by blast+
  let ?P = "\<lambda>j. rmatch w engine_re (bol \<and> j = 0) (drop j s) Map.empty \<noteq> []"
  from token_is_match [OF tk, of Map.empty] obtain q where q: "q \<le> length pre" and Pq: "?P q"
    unfolding s by blast
  from Pq have "\<exists>j. ?P j" by blast
  then obtain p where Pp: "?P p" and min: "\<forall>j<p. \<not> ?P j"
    using exists_least_iff [of ?P] by blast
  have pq: "p \<le> q"
  proof (rule ccontr)
    assume "\<not> p \<le> q"
    then have "q < p" by simp
    with min Pq show False by blast
  qed
  have pl: "p \<le> length s" using pq q s by simp
  from Pp obtain n g rs where hd: "rmatch w engine_re (bol \<and> p = 0) (drop p s) Map.empty = (n, g) # rs"
    by (cases "rmatch w engine_re (bol \<and> p = 0) (drop p s) Map.empty") auto
  from engine_re_head [OF hd] obtain ws1 wdh ws2 rest
    where d: "drop p s = ws1 @ 33 # wdh @ ws2 @ rest"
      and n: "n = length ws1 + 1 + length wdh + length ws2"
      and em: "engine_match w (bol \<and> p = 0) ws1 wdh ws2 rest"
      and g: "g = Map.empty(1 \<mapsto> ws1, 2 \<mapsto> wdh, 3 \<mapsto> ws2)"
      and gr: "length ws2 = (if ws2 @ rest = [] \<or> ws2 @ rest = [10] then 0
                         else length (takeWhile (in_cls w Space) (ws2 @ rest)))"
    by blast
  let ?kept = "take p s"
  note tok = match_is_token [OF em pl d]
  from em have sp1: "\<forall>c\<in>set ws1. in_cls w Space c" and wch: "\<forall>c\<in>set wdh. in_cls w Word c"
    and wneh: "wdh \<noteq> []"
    by (simp_all add: engine_match_def)
  have eq0: "(?kept @ ws1) @ 33 # wdh @ (ws2 @ rest) = pre @ 33 # wd @ post"
    using tok(1) [symmetric] s by (rule trans)
  have le1: "length pre \<le> p + length ws1"
  proof -
    from left [OF eq0 tok(2)] show ?thesis using pl by simp
  qed
  have le2: "p + length ws1 \<le> length pre"
  proof (rule ccontr)
    assume "\<not> p + length ws1 \<le> length pre"
    then have lt: "length pre < p + length ws1" by simp
    have ge: "p \<le> length pre" using pq q by simp
    have "s ! length pre = 33" using s by simp
    moreover have "s ! length pre = (drop p s) ! (length pre - p)"
      using ge pl by simp
    moreover have il: "length pre - p < length ws1"
      using lt ge by arith
    moreover have "(drop p s) ! (length pre - p) = ws1 ! (length pre - p)"
      using d il by (simp add: nth_append)
    moreover have "ws1 ! (length pre - p) \<in> set ws1"
      using il by simp
    ultimately have "33 \<in> set ws1" by simp
    with sp1 have "in_cls w Space 33" by simp
    with bang_not_space show False by blast
  qed
  have len: "length pre = length (?kept @ ws1)" using le1 le2 pl by simp
  have eq: "pre @ 33 # wd @ post = (?kept @ ws1) @ 33 # wdh @ (ws2 @ rest)"
    using eq0 by (rule sym)
  have "pre = ?kept @ ws1 \<and> 33 # wd @ post = 33 # wdh @ (ws2 @ rest)"
    using eq len
      append_eq_append_conv [of pre "?kept @ ws1" "33 # wd @ post" "33 # wdh @ (ws2 @ rest)"]
    by blast
  then have pre: "pre = ?kept @ ws1" and tl: "33 # wd @ post = 33 # wdh @ (ws2 @ rest)"
    by blast+
  from tl have e2: "wd @ post = wdh @ (ws2 @ rest)" by simp
  from tk have wc: "\<forall>c\<in>set wd. in_cls w Word c" and po: "post = [] \<or> in_cls w Space (hd post)"
    by (auto simp: is_token_def)
  from tok(2) have poh: "ws2 @ rest = [] \<or> in_cls w Space (hd (ws2 @ rest))"
    by (auto simp: is_token_def)
  from word_run_unique [OF disj e2 wc po wch poh] have wd: "wd = wdh" and post: "post = ws2 @ rest"
    by simp_all
  have kept: "?kept = [] \<or> \<not> in_cls w Space (last ?kept)"
  proof (rule ccontr)
    assume "\<not> (?kept = [] \<or> \<not> in_cls w Space (last ?kept))"
    then have kne: "?kept \<noteq> []" and ksp: "in_cls w Space (last ?kept)" by simp_all
    let ?j = "length (butlast ?kept)"
    have jl: "?j < p" using kne pl by (simp add: min_def)
    have "s = ?kept @ drop p s" by simp
    also have "\<dots> = (butlast ?kept @ [last ?kept]) @ drop p s" using kne by simp
    finally have "s = butlast ?kept @ (last ?kept # ws1) @ 33 # wdh @ ws2 @ rest"
      using d by simp
    then have "drop ?j s = drop ?j (butlast ?kept @ (last ?kept # ws1) @ 33 # wdh @ ws2 @ rest)"
      by simp
    then have dj: "drop ?j s = (last ?kept # ws1) @ 33 # wdh @ ws2 @ rest"
      by simp
    have "engine_match w (bol \<and> ?j = 0) (last ?kept # ws1) wdh ws2 rest"
      using em ksp by (simp add: engine_match_def)
    from engine_re_complete [OF this, of Map.empty]
    have "?P ?j" unfolding dj by auto
    with min jl show False by blast
  qed
  have bt: "take p s = before_token w pre"
    unfolding pre using sp1 kept by (simp add: before_token_eq)
  have at: "drop n (drop p s) = after_token w post"
  proof -
    have "drop n (drop p s) = rest" using d n by simp
    also have "\<dots> = after_token w (ws2 @ rest)" using gr by (simp add: after_token_eq)
    finally show ?thesis using post by simp
  qed
  have g2: "g 2 = Some wd" using g wd by simp
  have n0: "0 < n" using n by simp
  have "\<forall>j<p. rmatch w engine_re (bol \<and> j = 0) (drop j s) Map.empty = []"
    using min by blast
  with pl hd n0 g2 bt at show ?thesis by blast
qed

lemma sub_from_first_token:
  assumes disj: "classes_disjoint w" and ft: "first_token w bol pre wd post"
  shows "sub_from w engine_re bol (pre @ 33 # wd @ post) =
           before_token w pre @ sub_from w engine_re False (after_token w post)"
proof -
  let ?s = "pre @ 33 # wd @ post"
  from first_match [OF disj ft refl] obtain p n g rs where p: "p \<le> length ?s"
    and no: "\<forall>j<p. rmatch w engine_re (bol \<and> j = 0) (drop j ?s) Map.empty = []"
    and hd: "rmatch w engine_re (bol \<and> p = 0) (drop p ?s) Map.empty = (n, g) # rs"
    and n0: "0 < n" and bt: "take p ?s = before_token w pre"
    and at: "drop n (drop p ?s) = after_token w post"
    by blast
  have ne: "drop p ?s \<noteq> []"
  proof
    assume "drop p ?s = []"
    with hd have "rmatch w engine_re (bol \<and> p = 0) [] Map.empty \<noteq> []" by simp
    then obtain m h where "(m, h) \<in> set (rmatch w engine_re (bol \<and> p = 0) [] Map.empty)"
      by (cases "rmatch w engine_re (bol \<and> p = 0) [] Map.empty") auto
    from engine_re_sound [OF this] show False by simp
  qed
  have "sub_from w engine_re bol ?s = take p ?s @ sub_from w engine_re (bol \<and> p = 0) (drop p ?s)"
    using p no by (rule sub_from_skip)
  also have "sub_from w engine_re (bol \<and> p = 0) (drop p ?s) =
             sub_from w engine_re False (drop n (drop p ?s))"
    using hd n0 ne by (rule sub_from_match)
  finally show ?thesis unfolding bt at .
qed

lemma re_search_first_token:
  assumes disj: "classes_disjoint w" and ft: "first_token w True pre wd post"
  shows "\<exists>m. re_search w engine_re (pre @ 33 # wd @ post) = Some m \<and> m_group m 2 = Some wd"
proof -
  let ?s = "pre @ 33 # wd @ post"
  from first_match [OF disj ft refl] obtain p n g rs where p: "p \<le> length ?s"
    and no: "\<forall>j<p. rmatch w engine_re (True \<and> j = 0) (drop j ?s) Map.empty = []"
    and hd: "rmatch w engine_re (True \<and> p = 0) (drop p ?s) Map.empty = (n, g) # rs"
    and g2: "g 2 = Some wd"
    by blast
  have "search_from w engine_re 0 ?s \<noteq> None"
  proof
    assume "search_from w engine_re 0 ?s = None"
    with p have "rmatch w engine_re (0 + p = 0) (drop p ?s) Map.empty = []"
      unfolding search_from_None_iff by blast
    with hd show False by simp
  qed
  then obtain m where m: "search_from w engine_re 0 ?s = Some m" by blast
  from search_from_Some [OF m] obtain i n' g' rs' where i: "i \<le> length ?s"
    and noi: "\<forall>j<i. rmatch w engine_re (0 + j = 0) (drop j ?s) Map.empty = []"
    and hdi: "rmatch w engine_re (0 + i = 0) (drop i ?s) Map.empty = (n', g') # rs'"
    and me: "m = \<lparr>m_start = 0 + i, m_end = 0 + i + n', m_group = g'\<rparr>"
    by blast
  have "i = p"
  proof (rule ccontr)
    assume "i \<noteq> p"
    then consider "i < p" | "p < i" by arith
    then show False
    proof cases
      case 1
      with no have "rmatch w engine_re (True \<and> i = 0) (drop i ?s) Map.empty = []" by blast
      with hdi show False by simp
    next
      case 2
      with noi have "rmatch w engine_re (0 + p = 0) (drop p ?s) Map.empty = []" by blast
      with hd show False by simp
    qed
  qed
  with hd hdi have "g' = g" by simp
  with me g2 have "m_group m 2 = Some wd" by simp
  with m show ?thesis unfolding re_search_def by blast
qed

lemma template_and_term_first_token:
  assumes disj: "classes_disjoint w" and ft: "first_token w True pre wd post"
  shows "template_and_term w (pre @ 33 # wd @ post) =
           Inr (searchengines w wd,
                before_token w pre @ sub_from w engine_re False (after_token w post))"
proof -
  from re_search_first_token [OF disj ft] obtain m
    where "re_search w engine_re (pre @ 33 # wd @ post) = Some m" "m_group m 2 = Some wd"
    by blast
  then show ?thesis
    by (simp add: template_and_term_def re_sub_empty_def sub_from_first_token [OF disj ft])
qed

lemma has_token_first:
  assumes "has_token w bol s"
  shows "\<exists>pre wd post. s = pre @ 33 # wd @ post \<and> first_token w bol pre wd post"
proof -
  let ?P = "\<lambda>n. \<exists>pre wd post. s = pre @ 33 # wd @ post \<and> is_token w bol pre wd post \<and>
              length pre = n"
  from assms have "\<exists>n. ?P n" unfolding has_token_def by blast
  then obtain n where Pn: "?P n" and min: "\<forall>m<n. \<not> ?P m"
    using exists_least_iff [of ?P] by blast
  from Pn obtain pre wd post where s: "s = pre @ 33 # wd @ post"
    and tk: "is_token w bol pre wd post" and n: "length pre = n"
    by blast
  have "length pre \<le> length pre'"
    if "pre' @ 33 # wd' @ post' = pre @ 33 # wd @ post \<and> is_token w bol pre' wd' post'"
    for pre' wd' post'
  proof (rule ccontr)
    assume "\<not> length pre \<le> length pre'"
    then have "length pre' < n" using n by simp
    with min have "\<not> ?P (length pre')" by blast
    moreover have "s = pre' @ 33 # wd' @ post'" using that s by simp
    then have "?P (length pre')" using that by blast
    ultimately show False ..
  qed
  with tk have "first_token w bol pre wd post" unfolding first_token_def by blast
  with s show ?thesis by blast
qed

lemma no_bang_no_token: "33 \<notin> set s \<Longrightarrow> \<not> has_token w bol s"
  by (auto simp: has_token_def)

lemma first_tokenI:
  assumes "is_token w bol pre wd post" and "33 \<notin> set pre"
  shows "first_token w bol pre wd post"
  unfolding first_token_def
proof (intro conjI allI impI)
  show "is_token w bol pre wd post" by (rule assms(1))
next
  fix pre' wd' post'
  assume a: "pre' @ 33 # wd' @ post' = pre @ 33 # wd @ post \<and> is_token w bol pre' wd' post'"
  show "length pre \<le> length pre'"
  proof (rule ccontr)
    assume "\<not> length pre \<le> length pre'"
    then have lt: "length pre' < length pre" by simp
    have "(pre' @ 33 # wd' @ post') ! length pre' = 33" by simp
    with a have "(pre @ 33 # wd @ post) ! length pre' = 33" by simp
    with lt have "pre ! length pre' = 33" by (simp add: nth_append)
    with lt have "33 \<in> set pre" by (metis nth_mem)
    with assms(2) show False ..
  qed
qed

lemma naive_disjoint: "classes_disjoint naive_world"
  by (auto simp: classes_disjoint_def sample_world_def py_isspace_def py_isalnum_def)

lemma first_token_gg: "first_token naive_world True (lit ''a '') (lit ''gg'') (lit '' b !x c'')"
  by (rule first_tokenI) (simp_all add: is_token_def sample_world_def py_isspace_def py_isalnum_def)

lemma first_token_x: "first_token naive_world False (lit ''b '') (lit ''x'') (lit '' c'')"
  by (rule first_tokenI) (simp_all add: is_token_def sample_world_def py_isspace_def py_isalnum_def)

lemma before_a: "before_token naive_world (lit ''a '') = lit ''a''"
  by code_simp

lemma before_b: "before_token naive_world (lit ''b '') = lit ''b''"
  by code_simp

lemma after_b: "after_token naive_world (lit '' b !x c'') = lit ''b '' @ 33 # lit ''x'' @ lit '' c''"
  by code_simp

lemma after_c: "after_token naive_world (lit '' c'') = lit ''c''"
  by code_simp

lemma has_token_gg: "has_token naive_world True (lit ''a !gg b !x c'')"
proof -
  have "lit ''a !gg b !x c'' = lit ''a '' @ 33 # lit ''gg'' @ lit '' b !x c''" by simp
  moreover have "is_token naive_world True (lit ''a '') (lit ''gg'') (lit '' b !x c'')"
    using first_token_gg unfolding first_token_def by blast
  ultimately show ?thesis unfolding has_token_def by blast
qed

text \<open>
  C5, as the code has it. \<open>_get_search_url\<close> looks for an engine token \<open>!word\<close>, where
  the word is one or more word characters (letters, digits, underscore: \<open>\w\<close>, not any
  character but a space), with the start of the text or white space before the \<open>!\<close> and the
  end of the text or white space after the word. Without such a token the template is that
  of \<open>DEFAULT\<close> and the term is the whole input. A text with a token has a leftmost one;
  its word selects the template, and the term is the input without that token and without
  the white space next to it: what stands before the token, less the white space at its end,
  followed by what \<open>sub\<close> leaves of the text after the token, less the white space at its
  start (a final newline on its own stays). What \<open>sub\<close> leaves of that text is the text
  itself when it has no further token, and is found in the same way from its leftmost token
  otherwise; a token counts there only with white space before its \<open>!\<close>. No character is
  taken to be both white space and a word character.
\<close>

theorem template_and_term_token:
  "classes_disjoint w \<Longrightarrow>
     (\<not> has_token w True txt \<longrightarrow>
        template_and_term w txt = Inr (searchengines w (lit ''DEFAULT''), txt)) \<and>
     (has_token w bol s \<longrightarrow>
        (\<exists>pre wd post. s = pre @ 33 # wd @ post \<and> first_token w bol pre wd post)) \<and>
     (first_token w True pre wd post \<longrightarrow>
        template_and_term w (pre @ 33 # wd @ post) =
          Inr (searchengines w wd,
               before_token w pre @ sub_from w engine_re False (after_token w post))) \<and>
     (\<not> has_token w False rest \<longrightarrow> sub_from w engine_re False rest = rest) \<and>
     (first_token w False pre' wd' post' \<longrightarrow>
        sub_from w engine_re False (pre' @ 33 # wd' @ post') =
          before_token w pre' @ sub_from w engine_re False (after_token w post'))"
proof (intro conjI impI)
  assume "\<not> has_token w True txt"
  then have "re_search w engine_re txt = None" by (simp add: re_search_None_iff)
  then show "template_and_term w txt = Inr (searchengines w (lit ''DEFAULT''), txt)"
    by (simp add: template_and_term_def)
next
  assume "has_token w bol s"
  then show "\<exists>pre wd post. s = pre @ 33 # wd @ post \<and> first_token w bol pre wd post"
    by (rule has_token_first)
next
  assume "classes_disjoint w" "first_token w True pre wd post"
  then show "template_and_term w (pre @ 33 # wd @ post) =
          Inr (searchengines w wd,
               before_token w pre @ sub_from w engine_re False (after_token w post))"
    by (rule template_and_term_first_token)
next
  assume "\<not> has_token w False rest"
  then show "sub_from w engine_re False rest = rest" by (rule sub_from_no_token)
next
  assume "classes_disjoint w" "first_token w False pre' wd' post'"
  then show "sub_from w engine_re False (pre' @ 33 # wd' @ post') =
          before_token w pre' @ sub_from w engine_re False (after_token w post')"
    by (rule sub_from_first_token)
qed

theorem template_and_term_token_witness:
  "template_and_term naive_world (lit ''cats'') = Inr (Some (lit ''d?q={}''), lit ''cats'') \<and>
   (\<exists>pre wd post. lit ''a !gg b !x c'' = pre @ 33 # wd @ post \<and>
      first_token naive_world True pre wd post) \<and>
   template_and_term naive_world (lit ''a !gg b !x c'') = Inr (Some (lit ''g?q={}''), lit ''abc'')"
proof -
  note t = template_and_term_token [of naive_world "lit ''cats''" True "lit ''a !gg b !x c''"
      "lit ''a ''" "lit ''gg''" "lit '' b !x c''" "lit ''c''" "lit ''b ''" "lit ''x''" "lit '' c''",
      OF naive_disjoint]
  have n1: "\<not> has_token naive_world True (lit ''cats'')" by (rule no_bang_no_token) simp
  have n2: "\<not> has_token naive_world False (lit ''c'')" by (rule no_bang_no_token) simp
  from t n1 have 1: "template_and_term naive_world (lit ''cats'') =
      Inr (searchengines naive_world (lit ''DEFAULT''), lit ''cats'')"
    by blast
  from t has_token_gg have 0: "\<exists>pre wd post. lit ''a !gg b !x c'' = pre @ 33 # wd @ post \<and>
      first_token naive_world True pre wd post"
    by blast
  from t first_token_gg have 2: "template_and_term naive_world (lit ''a '' @ 33 # lit ''gg'' @ lit '' b !x c'') =
      Inr (searchengines naive_world (lit ''gg''),
           before_token naive_world (lit ''a '') @
           sub_from naive_world engine_re False (after_token naive_world (lit '' b !x c'')))"
    by blast
  from t n2 have 3: "sub_from naive_world engine_re False (lit ''c'') = lit ''c''"
    by blast
  from t first_token_x have 4: "sub_from naive_world engine_re False (lit ''b '' @ 33 # lit ''x'' @ lit '' c'') =
      before_token naive_world (lit ''b '') @
      sub_from naive_world engine_re False (after_token naive_world (lit '' c''))"
    by blast
  have 5: "sub_from naive_world engine_re False (after_token naive_world (lit '' b !x c'')) = lit ''bc''"
    unfolding after_b 4 before_b after_c 3 by simp
  have e1: "searchengines naive_world (lit ''DEFAULT'') = Some (lit ''d?q={}'')"
    by (simp add: sample_world_def sample_engines_def)
  have e2: "searchengines naive_world (lit ''gg'') = Some (lit ''g?q={}'')"
    by (simp add: sample_world_def sample_engines_def)
  from 1 e1 have a: "template_and_term naive_world (lit ''cats'') = Inr (Some (lit ''d?q={}''), lit ''cats'')"
    by simp
  from 2 have "template_and_term naive_world (lit ''a !gg b !x c'') =
      Inr (searchengines naive_world (lit ''gg''), lit ''a'' @ lit ''bc'')"
    unfolding before_a 5 by simp
  with e2 have b: "template_and_term naive_world (lit ''a !gg b !x c'') = Inr (Some (lit ''g?q={}''), lit ''abc'')"
    by simp
  from a 0 b show ?thesis by blast
qed

text \<open>
  The example of the specification, \<open>!gg cats\<close>, selects \<open>gg\<close> and searches for \<open>cats\<close>;
  so does \<open>!gg  cats\<close>, with two spaces after the token.
\<close>

lemma gg_cats_value:
  "template_and_term naive_world (lit ''!gg cats'') = Inr (Some (lit ''g?q={}''), lit ''cats'') \<and>
   template_and_term naive_world (lit ''!gg  cats'') = Inr (Some (lit ''g?q={}''), lit ''cats'')"
  by code_simp

text \<open>
  The claim as stated fails: in \<open>!g-g cats\<close> the word \<open>g-g\<close> has no space in it (its
  characters are 103 and 45) and is
  bounded by the start of the text and a space, and an engine \<open>g-g\<close> is configured; the
  code finds no token, takes the \<open>DEFAULT\<close> template and searches for the whole input.
\<close>

theorem template_and_term_token_counterexample:
  "lit ''!g-g cats'' = [] @ 33 # lit ''g-g'' @ lit '' cats'' \<and>
   \<not> in_cls naive_world Space 103 \<and> \<not> in_cls naive_world Space 45 \<and>
   in_cls naive_world Space (hd (lit '' cats'')) \<and>
   template_and_term naive_world (lit ''!g-g cats'') =
     Inr (searchengines naive_world (lit ''DEFAULT''), lit ''!g-g cats'') \<and>
   template_and_term naive_world (lit ''!g-g cats'') \<noteq> Inr (searchengines naive_world (lit ''g-g''), lit ''cats'')"
  by code_simp

section \<open>Falling back to the raw input\<close>

text \<open>
  C8. When the lookup of the selected engine gives no template, or the term that is left is
  empty, \<open>_get_search_url\<close> raises \<open>ValueError\<close>, and \<open>fuzzy_url\<close>, once \<open>is_url\<close> has
  returned, does not pass the error on: its result is \<open>QUrl.fromUserInput\<close> of the raw
  input.
\<close>

theorem fuzzy_url_search_error:
  "template_and_term w (urlstring url) = Inr (tpl, term) \<Longrightarrow> tpl = None \<or> term = [] \<Longrightarrow>
   is_url w (qurl w url) = (Inr b, dns) \<Longrightarrow>
     get_search_url w (urlstring url) =
       Inl (ValueError (if tpl = None then ''Search template is None''
                        else ''No search term given'')) \<and>
     fuzzy_url w url = (Inr (fromUserInput w (urlstring url)), dns)"
  by (auto simp: get_search_url_def fuzzy_url_def Let_def split: option.splits bool.splits)

lemma bang_gg_parts: "template_and_term naive_world (lit ''!gg'') = Inr (Some (lit ''g?q={}''), [])"
  by code_simp

lemma bang_gg_is_url: "is_url naive_world (qurl naive_world (UStr (lit ''!gg''))) = (Inr False, [])"
  by code_simp

lemma bang_xx_parts: "template_and_term naive_world (lit ''!xx cats'') = Inr (None, lit ''cats'')"
  by code_simp

lemma bang_xx_is_url: "is_url naive_world (qurl naive_world (UStr (lit ''!xx cats''))) = (Inr False, [])"
  by code_simp

theorem fuzzy_url_search_error_witness:
  "get_search_url naive_world (lit ''!gg'') = Inl (ValueError ''No search term given'') \<and>
   fuzzy_url naive_world (UStr (lit ''!gg'')) = (Inr (fromUserInput naive_world (lit ''!gg'')), []) \<and>
   get_search_url naive_world (lit ''!xx cats'') = Inl (ValueError ''Search template is None'') \<and>
   fuzzy_url naive_world (UStr (lit ''!xx cats'')) = (Inr (fromUserInput naive_world (lit ''!xx cats'')), [])"
  using fuzzy_url_search_error [of naive_world "UStr (lit ''!gg'')" "Some (lit ''g?q={}'')" "[]" False "[]"]
    fuzzy_url_search_error [of naive_world "UStr (lit ''!xx cats'')" None "lit ''cats''" False "[]"]
    bang_gg_parts bang_gg_is_url bang_xx_parts bang_xx_is_url
  by simp

section \<open>The external editor: the command line\<close>



section \<open>The external editor: UTF-8\<close>

lemma split4096:
  "(c::nat) div 4096 * 4096 + c div 64 mod 64 * 64 + c mod 64 = c"
proof -
  define q1 r1 q2 r2 where "q1 = c div 64" and "r1 = c mod 64" and "q2 = q1 div 64"
    and "r2 = q1 mod 64"
  have a: "c = q1 * 64 + r1" by (simp add: q1_def r1_def)
  have b: "q1 = q2 * 64 + r2" by (simp add: q2_def r2_def)
  have "c div 4096 = q2" by (simp add: q2_def q1_def div_mult2_eq)
  moreover have "q2 * 4096 + r2 * 64 + r1 = c" using a b by simp
  ultimately show ?thesis by (simp add: q1_def r1_def r2_def)
qed

lemma split262144:
  "(c::nat) div 262144 * 262144 + c div 4096 mod 64 * 4096 + c div 64 mod 64 * 64 + c mod 64 = c"
proof -
  define q1 r1 q2 r2 q3 r3 where "q1 = c div 64" and "r1 = c mod 64" and "q2 = q1 div 64"
    and "r2 = q1 mod 64" and "q3 = q2 div 64" and "r3 = q2 mod 64"
  have a: "c = q1 * 64 + r1" by (simp add: q1_def r1_def)
  have b: "q1 = q2 * 64 + r2" by (simp add: q2_def r2_def)
  have d: "q2 = q3 * 64 + r3" by (simp add: q3_def r3_def)
  have e2: "c div 4096 = q2" by (simp add: q2_def q1_def div_mult2_eq)
  have e3: "c div 262144 = q3" by (simp add: q3_def q2_def q1_def div_mult2_eq)
  have "q3 * 262144 + r3 * 4096 + r2 * 64 + r1 = c" using a b d by simp
  with e2 e3 show ?thesis by (simp add: q1_def r1_def r2_def r3_def)
qed

lemma utf8_decode_char1:
  "c < 0x80 \<Longrightarrow> utf8_decode (utf8_char c @ bs) = map_option ((#) c) (utf8_decode bs)"
  by (simp add: utf8_char_def)

lemma utf8_decode_char2:
  assumes "0x80 \<le> c" "c < 0x800"
  shows "utf8_decode (utf8_char c @ bs) = map_option ((#) c) (utf8_decode bs)"
proof -
  define q r where "q = c div 64" and "r = c mod 64"
  have d: "2 \<le> q" "q < 32" "r < 64" using assms unfolding q_def r_def by arith+
  have e: "q * 64 + r = c" unfolding q_def r_def by simp
  have u: "utf8_char c = [0xC0 + q, 0x80 + r]"
    using assms by (simp add: utf8_char_def q_def r_def)
  show ?thesis
    unfolding u using d e by (simp add: cont_def)
qed

lemma utf8_decode_char3:
  assumes "0x800 \<le> c" "c < 0x10000" "valid_scalar c"
  shows "utf8_decode (utf8_char c @ bs) = map_option ((#) c) (utf8_decode bs)"
proof -
  define q m r where "q = c div 4096" and "m = c div 64 mod 64" and "r = c mod 64"
  have d: "q < 16" "m < 64" "r < 64" using assms unfolding q_def m_def r_def by arith+
  have e: "q * 4096 + m * 64 + r = c" unfolding q_def m_def r_def by (rule split4096)
  have u: "utf8_char c = [0xE0 + q, 0x80 + m, 0x80 + r]"
    using assms by (simp add: utf8_char_def q_def m_def r_def)
  show ?thesis
    unfolding u using d e assms(1,3) by (simp add: cont_def Let_def)
qed

lemma utf8_decode_char4:
  assumes "0x10000 \<le> c" "valid_scalar c"
  shows "utf8_decode (utf8_char c @ bs) = map_option ((#) c) (utf8_decode bs)"
proof -
  have lt: "c < 0x110000" using assms by (simp add: valid_scalar_def)
  define q n m r where "q = c div 262144" and "n = c div 4096 mod 64" and "m = c div 64 mod 64"
    and "r = c mod 64"
  have d: "q < 8" "n < 64" "m < 64" "r < 64" using lt unfolding q_def n_def m_def r_def by arith+
  have e: "q * 262144 + n * 4096 + m * 64 + r = c"
    unfolding q_def n_def m_def r_def by (rule split262144)
  have u: "utf8_char c = [0xF0 + q, 0x80 + n, 0x80 + m, 0x80 + r]"
    using assms by (simp add: utf8_char_def q_def n_def m_def r_def)
  show ?thesis
    unfolding u using d e assms by (simp add: cont_def Let_def)
qed

lemma utf8_decode_char:
  "valid_scalar c \<Longrightarrow> utf8_decode (utf8_char c @ bs) = map_option ((#) c) (utf8_decode bs)"
  using utf8_decode_char1 [of c bs] utf8_decode_char2 [of c bs] utf8_decode_char3 [of c bs]
    utf8_decode_char4 [of c bs]
  by (cases "c < 0x80"; cases "c < 0x800"; cases "c < 0x10000") simp_all

lemma utf8_roundtrip:
  "utf8_encode t = Some b \<Longrightarrow> utf8_decode b = Some t"
proof (induction t arbitrary: b)
  case Nil
  then show ?case by (simp add: utf8_encode_def)
next
  case (Cons c t)
  then have v: "valid_scalar c" and vt: "list_all valid_scalar t"
    and b: "b = utf8_char c @ concat (map utf8_char t)"
    by (auto simp: utf8_encode_def split: if_splits)
  from vt have "utf8_encode t = Some (concat (map utf8_char t))" by (simp add: utf8_encode_def)
  then have "utf8_decode (concat (map utf8_char t)) = Some t" by (rule Cons.IH)
  with v b show ?case by (simp add: utf8_decode_char)
qed

lemma utf8_encode_decode:
  "list_all valid_scalar t \<Longrightarrow>
     utf8_encode t = Some (concat (map utf8_char t)) \<and>
     utf8_decode (concat (map utf8_char t)) = Some t"
  using utf8_roundtrip [of t "concat (map utf8_char t)"] by (simp add: utf8_encode_def)

section \<open>The external editor: the session\<close>

lemma edit_ok:
  assumes "filename st = None" and "cmd \<noteq> []" and "list_all valid_scalar X"
  shows "edit cmd tmp X st =
           Inr (st\<lparr>files := (files st)(tmp \<mapsto> concat (map utf8_char X)), filename := Some tmp,
                    proc := Some (hd cmd, map (\<lambda>arg. if arg = lit ''{}'' then tmp else arg) (tl cmd))\<rparr>)"
  using assms by (cases cmd) (simp_all add: edit_def start_args_def utf8_encode_def)


lemma closed_ok:
  assumes "filename st = Some p" and "files st p = Some bytes" and "utf8_decode bytes = Some T"
  shows "emitted (on_proc_closed 0 NormalExit st) = T # emitted st"
    and "errors (on_proc_closed 0 NormalExit st) = errors st"
  using assms by (simp_all add: on_proc_closed_def cleanup_def)

text \<open>
  C2. For every text \<open>X\<close> (a sequence of Unicode scalar values, which is what UTF-8
  encodes), \<open>edit(X)\<close> on an idle editor with a command writes exactly the UTF-8 encoding
  of \<open>X\<close> to the temporary file. When the process exits with status 0, the session emits
  the text that the bytes then in the file encode, whatever they are; so it emits \<open>X\<close> if
  the file was left alone, and \<open>Y\<close> if \<open>Y\<close> was written to the file in UTF-8; nothing
  else is emitted and no error is shown.
\<close>

theorem edit_round_trip:
  "filename st = None \<Longrightarrow> cmd \<noteq> [] \<Longrightarrow> list_all valid_scalar X \<Longrightarrow>
     (\<exists>st1 bytes.
        edit cmd tmp X st = Inr st1 \<and> filename st1 = Some tmp \<and>
        utf8_encode X = Some bytes \<and> files st1 tmp = Some bytes \<and>
        emitted (on_proc_closed 0 NormalExit st1) = X # emitted st \<and>
        errors (on_proc_closed 0 NormalExit st1) = errors st \<and>
        (\<forall>bytes' Y. utf8_decode bytes' = Some Y \<longrightarrow>
           emitted (on_proc_closed 0 NormalExit (step (Write bytes') st1)) = Y # emitted st) \<and>
        (\<forall>Y bytes'. list_all valid_scalar Y \<and> utf8_encode Y = Some bytes' \<longrightarrow>
           emitted (on_proc_closed 0 NormalExit (step (Write bytes') st1)) = Y # emitted st))"
proof -
  assume idle: "filename st = None" and cmd: "cmd \<noteq> []" and X: "list_all valid_scalar X"
  let ?bytes = "concat (map utf8_char X)"
  let ?st1 = "st\<lparr>files := (files st)(tmp \<mapsto> ?bytes), filename := Some tmp,
                 proc := Some (hd cmd, map (\<lambda>arg. if arg = lit ''{}'' then tmp else arg) (tl cmd))\<rparr>"
  have e: "edit cmd tmp X st = Inr ?st1" using idle cmd X by (rule edit_ok)
  have enc: "utf8_encode X = Some ?bytes" and dec: "utf8_decode ?bytes = Some X"
    using utf8_encode_decode [OF X] by simp_all
  have f: "filename ?st1 = Some tmp" and fl: "files ?st1 tmp = Some ?bytes" by simp_all
  have em: "emitted (on_proc_closed 0 NormalExit ?st1) = X # emitted st"
    using closed_ok(1) [OF f fl dec] by simp
  have er: "errors (on_proc_closed 0 NormalExit ?st1) = errors st"
    using closed_ok(2) [OF f fl dec] by simp
  have w: "emitted (on_proc_closed 0 NormalExit (step (Write bytes') ?st1)) = Y # emitted st"
    if "utf8_decode bytes' = Some Y" for bytes' Y
  proof -
    have "filename (step (Write bytes') ?st1) = Some tmp"
      "files (step (Write bytes') ?st1) tmp = Some bytes'" by simp_all
    from closed_ok(1) [OF this that] show ?thesis by simp
  qed
  have w2: "emitted (on_proc_closed 0 NormalExit (step (Write bytes') ?st1)) = Y # emitted st"
    if "list_all valid_scalar Y \<and> utf8_encode Y = Some bytes'" for bytes' Y
  proof -
    from that have "utf8_decode bytes' = Some Y" by (simp add: utf8_roundtrip)
    then show ?thesis by (rule w)
  qed
  from e f enc fl em er w w2 show ?thesis by blast
qed

lemma umlaut_valid:
  "list_all valid_scalar [72, 228, 108, 108, 246, 32, 87, 246, 114, 108, 100]"
  by (simp add: valid_scalar_def)

lemma snowman_valid: "list_all valid_scalar [0x2603]"
  by (simp add: valid_scalar_def)

lemma cloud_encoded: "list_all valid_scalar [0x2601] \<and> utf8_encode [0x2601] = Some [0xE2, 0x98, 0x81]"
  by (simp add: valid_scalar_def utf8_encode_def utf8_char_def)

theorem edit_round_trip_witness:
  "(\<exists>st1. edit [[]] (lit ''/tmp/tmpfile'') [72, 228, 108, 108, 246, 32, 87, 246, 114, 108, 100]
             new_editor = Inr st1 \<and>
          emitted (on_proc_closed 0 NormalExit st1) =
            [[72, 228, 108, 108, 246, 32, 87, 246, 114, 108, 100]]) \<and>
   (\<exists>st1. edit [[]] (lit ''/tmp/tmpfile'') [0x2603] new_editor = Inr st1 \<and>
          files st1 (lit ''/tmp/tmpfile'') = Some [0xE2, 0x98, 0x83] \<and>
          emitted (on_proc_closed 0 NormalExit (step (Write [0xE2, 0x98, 0x81]) st1)) = [[0x2601]])"
proof -
  have i: "filename new_editor = None" and em: "emitted new_editor = []"
    by (simp_all add: new_editor_def)
  have c: "[[]] \<noteq> ([]::pystr list)" by simp
  from edit_round_trip [OF i c umlaut_valid, of "lit ''/tmp/tmpfile''"]
  obtain st1 where "edit [[]] (lit ''/tmp/tmpfile'') [72, 228, 108, 108, 246, 32, 87, 246, 114, 108, 100]
             new_editor = Inr st1"
    and "emitted (on_proc_closed 0 NormalExit st1) =
           [72, 228, 108, 108, 246, 32, 87, 246, 114, 108, 100] # emitted new_editor"
    by blast
  then have a: "\<exists>st1. edit [[]] (lit ''/tmp/tmpfile'') [72, 228, 108, 108, 246, 32, 87, 246, 114, 108, 100]
             new_editor = Inr st1 \<and>
          emitted (on_proc_closed 0 NormalExit st1) =
            [[72, 228, 108, 108, 246, 32, 87, 246, 114, 108, 100]]"
    unfolding em by blast
  have s: "utf8_encode [0x2603] = Some [0xE2, 0x98, 0x83]"
    by (simp add: valid_scalar_def utf8_encode_def utf8_char_def)
  from edit_round_trip [OF i c snowman_valid, of "lit ''/tmp/tmpfile''"]
  obtain st2 bytes where e2: "edit [[]] (lit ''/tmp/tmpfile'') [0x2603] new_editor = Inr st2"
    and b2: "utf8_encode [0x2603] = Some bytes" and f2: "files st2 (lit ''/tmp/tmpfile'') = Some bytes"
    and w2: "\<forall>Y bytes'. list_all valid_scalar Y \<and> utf8_encode Y = Some bytes' \<longrightarrow>
           emitted (on_proc_closed 0 NormalExit (step (Write bytes') st2)) = Y # emitted new_editor"
    by blast
  from b2 s have "bytes = [0xE2, 0x98, 0x83]" by simp
  with f2 have f2': "files st2 (lit ''/tmp/tmpfile'') = Some [0xE2, 0x98, 0x83]" by simp
  from w2 cloud_encoded
  have "emitted (on_proc_closed 0 NormalExit (step (Write [0xE2, 0x98, 0x81]) st2)) =
          [0x2601] # emitted new_editor"
    by blast
  then have "emitted (on_proc_closed 0 NormalExit (step (Write [0xE2, 0x98, 0x81]) st2)) = [[0x2601]]"
    unfolding em .
  with e2 f2' have b: "\<exists>st1. edit [[]] (lit ''/tmp/tmpfile'') [0x2603] new_editor = Inr st1 \<and>
          files st1 (lit ''/tmp/tmpfile'') = Some [0xE2, 0x98, 0x83] \<and>
          emitted (on_proc_closed 0 NormalExit (step (Write [0xE2, 0x98, 0x81]) st1)) = [[0x2601]]"
    by blast
  from a b show ?thesis by blast
qed

lemma run_Nil: "run [] st = st"
  by (simp add: run_def)

lemma run_Cons: "run (e # es) st = run es (step e st)"
  by (simp add: run_def)


lemma step_dead: "filename st = None \<Longrightarrow> step e st = st"
  by (cases e) (simp_all add: on_proc_closed_def on_proc_error_def)

lemma run_dead: "filename st = None \<Longrightarrow> run es st = st"
  by (induction es) (simp_all add: run_Nil run_Cons step_dead)

lemma step_failure:
  assumes "filename st = Some p" and "failure e"
  shows "emitted (step e st) = emitted st" and "files (step e st) p = None"
    and "filename (step e st) = None" and "removed (step e st) = p # removed st"
    and "\<exists>err. errors (step e st) = err # errors st"
  using assms
  by (cases e; auto simp: on_proc_closed_def on_proc_error_def cleanup_def)+





text \<open>
  A failed edit. For a session under way, with \<open>p\<close> its temporary file, the close with
  a status other than 0 and the crash (the error callback, or the close with \<open>CrashExit\<close>)
  emit no text, remove the temporary file, and show one error; and whatever callbacks and
  writes follow, no text is emitted and the file stays removed.
\<close>

lemma failure_never_emits:
  "filename st = Some p \<Longrightarrow> failure e \<Longrightarrow>
     emitted (step e st) = emitted st \<and>
     files (step e st) p = None \<and> removed (step e st) = p # removed st \<and>
     (\<exists>err. errors (step e st) = err # errors st) \<and>
     (\<forall>es. emitted (run es (step e st)) = emitted st \<and> files (run es (step e st)) p = None \<and>
           removed (run es (step e st)) = p # removed st)"
proof -
  assume f: "filename st = Some p" and e: "failure e"
  note s = step_failure [OF f e]
  have "run es (step e st) = step e st" for es using s(3) by (rule run_dead)
  with s show ?thesis by simp
qed


lemma edit_empty:
  "edit [[]] (lit ''/tmp/tmpfile'') [] new_editor =
     Inr (new_editor\<lparr>files := (files new_editor)(lit ''/tmp/tmpfile'' \<mapsto> []),
                     filename := Some (lit ''/tmp/tmpfile''), proc := Some ([], [])\<rparr>)"
  by (simp add: edit_def start_args_def utf8_encode_def new_editor_def)

lemma failure_never_emits_examples:
  "\<exists>st1. edit [[]] (lit ''/tmp/tmpfile'') [] new_editor = Inr st1 \<and>
     files st1 (lit ''/tmp/tmpfile'') \<noteq> None \<and>
     emitted (on_proc_closed 1 NormalExit st1) = [] \<and>
     files (on_proc_closed 1 NormalExit st1) (lit ''/tmp/tmpfile'') = None \<and>
     errors (on_proc_closed 1 NormalExit st1) = [ProcessExitError 1] \<and>
     emitted (on_proc_error st1) = [] \<and>
     files (on_proc_error st1) (lit ''/tmp/tmpfile'') = None \<and>
     errors (on_proc_error st1) = [ProcessCrashError]"
proof -
  let ?tmp = "lit ''/tmp/tmpfile''"
  let ?st1 = "new_editor\<lparr>files := (files new_editor)(?tmp \<mapsto> []),
                     filename := Some ?tmp, proc := Some ([], [])\<rparr>"
  have f: "filename ?st1 = Some ?tmp" by simp
  have em: "emitted ?st1 = []" by (simp add: new_editor_def)
  have a: "failure (Closed 1 NormalExit)" by simp
  have b: "failure Crashed" by simp
  from failure_never_emits [OF f a] em
  have 1: "emitted (on_proc_closed 1 NormalExit ?st1) = []"
    "files (on_proc_closed 1 NormalExit ?st1) ?tmp = None"
    by simp_all
  from failure_never_emits [OF f b] em
  have 2: "emitted (on_proc_error ?st1) = []" "files (on_proc_error ?st1) ?tmp = None"
    by simp_all
  have 3: "errors (on_proc_closed 1 NormalExit ?st1) = [ProcessExitError 1]"
    "errors (on_proc_error ?st1) = [ProcessCrashError]"
    by (simp_all add: on_proc_closed_def on_proc_error_def cleanup_def new_editor_def)
  have 4: "files ?st1 ?tmp \<noteq> None" by simp
  from edit_empty 1 2 3 4 show ?thesis by blast
qed


end
